theory Spec2Isabelle
  imports Main
begin

section \<open>JavaScript strings and numbers\<close>

text \<open>
  A JavaScript string is modelled as a \<^typ>\<open>string\<close> whose characters are the code units
  \<open>0 .. 255\<close>. The numbers the program handles are line numbers, the results of
  \<open>parseInt\<close> and the literals \<open>0\<close> and \<open>-1\<close>: doubles that are an integer, an infinity or
  \<open>NaN\<close>. \<open>Num n\<close> is the double whose value is the integer \<open>n\<close> (zero stands for both of
  its signs, which the program does not tell apart outside the status line).
\<close>

datatype jsnum = Num int | NaN | PosInfinity | NegInfinity

datatype jsval = VNull | VUndefined | VNum jsnum | VStr string

text \<open>The comparisons \<open>x > 0\<close>, \<open>x >= 0\<close> and \<open>x === 0\<close>; each is false at \<open>NaN\<close>.\<close>

fun gt0 :: "jsnum \<Rightarrow> bool" where
  "gt0 (Num n) = (0 < n)"
| "gt0 PosInfinity = True"
| "gt0 NegInfinity = False"
| "gt0 NaN = False"

fun ge0 :: "jsnum \<Rightarrow> bool" where
  "ge0 (Num n) = (0 \<le> n)"
| "ge0 PosInfinity = True"
| "ge0 NegInfinity = False"
| "ge0 NaN = False"

fun eq0 :: "jsnum \<Rightarrow> bool" where
  "eq0 (Num n) = (n = 0)"
| "eq0 PosInfinity = False"
| "eq0 NegInfinity = False"
| "eq0 NaN = False"

text \<open>
  The double nearest to a natural number, ties to the even significand; \<open>None\<close> is
  infinity. Up to \<open>2^53\<close> every natural number is a double; beyond, a double has 53
  significant bits.
\<close>

fun bitlen :: "nat \<Rightarrow> nat" where
  "bitlen n = (if n = 0 then 0 else Suc (bitlen (n div 2)))"

declare bitlen.simps [simp del]

definition round_double :: "nat \<Rightarrow> nat option" where
  "round_double x =
     (if x < 2 ^ 53 then Some x
      else let e = bitlen x - 53;
               q = x div 2 ^ e;
               r = x mod 2 ^ e;
               h = 2 ^ (e - 1);
               q' = (if h < r \<or> (r = h \<and> odd q) then q + 1 else q);
               v = q' * 2 ^ e
           in if 2 ^ 1024 \<le> v then None else Some v)"

definition to_number :: "int \<Rightarrow> jsnum" where
  "to_number i =
     (case round_double (nat \<bar>i\<bar>) of
        None \<Rightarrow> (if i < 0 then NegInfinity else PosInfinity)
      | Some v \<Rightarrow> Num (if i < 0 then - int v else int v))"

text \<open>Decimal digits, for \<open>String(n)\<close> and \<open>parseInt(s, 10)\<close>.\<close>

definition digit_char :: "nat \<Rightarrow> char" where
  "digit_char d = ''0123456789'' ! d"

definition is_digit :: "char \<Rightarrow> bool" where
  "is_digit c = (48 \<le> (of_char c :: nat) \<and> (of_char c :: nat) \<le> 57)"

definition digit_val :: "char \<Rightarrow> nat" where
  "digit_val c = of_char c - 48"

fun dec :: "nat \<Rightarrow> string" where
  "dec n = (if n < 10 then [digit_char n] else dec (n div 10) @ [digit_char (n mod 10)])"

declare dec.simps [simp del]

text \<open>
  The digits that \<open>String\<close> writes for a positive double \<open>x\<close> that is an integer: those of the
  number with the fewest significant digits that is read back as \<open>x\<close> and, among such, the
  nearest to \<open>x\<close>. \<open>shortest x j\<close> looks for it among the multiples of \<open>10 ^ j\<close> next to \<open>x\<close>,
  then of \<open>10 ^ (j - 1)\<close>, and so on.
\<close>

fun shortest :: "nat \<Rightarrow> nat \<Rightarrow> nat" where
  "shortest x 0 = x"
| "shortest x (Suc j) =
     (let p = 10 ^ Suc j;
          lo = (x div p) * p;
          hi = lo + p;
          ok_lo = (round_double lo = Some x);
          ok_hi = (round_double hi = Some x)
      in if ok_lo \<and> ok_hi then
           (if x - lo < hi - x then lo
            else if hi - x < x - lo then hi
            else if even (x div p) then lo else hi)
         else if ok_lo then lo
         else if ok_hi then hi
         else shortest x j)"

definition strip_zeros :: "string \<Rightarrow> string" where
  "strip_zeros ds = rev (dropWhile (\<lambda>c. c = CHR ''0'') (rev ds))"

text \<open>
  Up to 21 digits the number is written out; a longer one is written with an exponent, as
  in \<open>1e+21\<close> and \<open>1.2e+25\<close>.
\<close>

definition number_string :: "nat \<Rightarrow> string" where
  "number_string x =
     (let ds = dec (shortest x (length (dec x) - 1));
          n = length ds
      in if n \<le> 21 then ds
         else (case strip_zeros ds of
                 [] \<Rightarrow> []
               | c # cs \<Rightarrow> (if cs = [] then [c] else c # CHR ''.'' # cs)) @ ''e+'' @ dec (n - 1))"

text \<open>\<open>String(value)\<close>\<close>

fun js_String :: "jsval \<Rightarrow> string" where
  "js_String VNull = ''null''"
| "js_String VUndefined = ''undefined''"
| "js_String (VNum NaN) = ''NaN''"
| "js_String (VNum PosInfinity) = ''Infinity''"
| "js_String (VNum NegInfinity) = ''-Infinity''"
| "js_String (VNum (Num n)) =
     (if n < 0 then CHR ''-'' # number_string (nat (- n)) else number_string (nat n))"
| "js_String (VStr s) = s"

text \<open>
  White space as \<open>trim\<close> and \<open>parseInt\<close> see it (tab, line feed, vertical tab, form feed,
  carriage return, space, no-break space).
\<close>

definition is_ws :: "char \<Rightarrow> bool" where
  "is_ws c = ((of_char c :: nat) \<in> {9, 10, 11, 12, 13, 32, 160})"

definition trim :: "string \<Rightarrow> string" where
  "trim s = rev (dropWhile is_ws (rev (dropWhile is_ws s)))"

definition startsWith :: "string \<Rightarrow> string \<Rightarrow> bool" where
  "startsWith s p = (take (length p) s = p)"

text \<open>\<open>s.includes(sub)\<close>: \<open>sub\<close> occurs in \<open>s\<close> as a contiguous run.\<close>

fun str_includes :: "string \<Rightarrow> string \<Rightarrow> bool" where
  "str_includes [] sub = (sub = [])"
| "str_includes (c # cs) sub = (startsWith (c # cs) sub \<or> str_includes cs sub)"

text \<open>\<open>s.split(sep)\<close>; an empty separator splits into single code units.\<close>

fun split_from :: "string \<Rightarrow> string \<Rightarrow> string \<Rightarrow> string list" where
  "split_from sep acc [] = [rev acc]"
| "split_from sep acc (c # cs) =
     (if startsWith (c # cs) sep
      then rev acc # split_from sep [] (drop (length sep - 1) cs)
      else split_from sep (c # acc) cs)"

definition split :: "string \<Rightarrow> string \<Rightarrow> string list" where
  "split s sep = (if sep = [] then map (\<lambda>c. [c]) s else split_from sep [] s)"

text \<open>\<open>parts.join(sep)\<close>\<close>

fun join :: "string list \<Rightarrow> string \<Rightarrow> string" where
  "join [] sep = []"
| "join [x] sep = x"
| "join (x # y # ys) sep = x @ sep @ join (y # ys) sep"

text \<open>
  \<open>parseInt(s, 10)\<close>: skip leading white space, read an optional sign, then the longest
  run of decimal digits; \<open>NaN\<close> when that run is empty. What follows the digits is ignored.
  The result is the double nearest to the integer read.
\<close>

definition digits_val :: "string \<Rightarrow> nat" where
  "digits_val ds = foldl (\<lambda>a c. 10 * a + digit_val c) 0 ds"

definition parseInt :: "string \<Rightarrow> jsnum" where
  "parseInt s =
     (let S = dropWhile is_ws s;
          neg = startsWith S ''-'';
          S' = (if startsWith S ''-'' \<or> startsWith S ''+'' then tl S else S);
          Z = takeWhile is_digit S'
      in if Z = [] then NaN
         else to_number (if neg then - int (digits_val Z) else int (digits_val Z)))"

section \<open>CSV export\<close>

text \<open>
  \<open>escapeCsv\<close>: the test of the regular expression \<open>/[",\n\r]/\<close> and the replacement of
  every double quote by two.
\<close>

definition CR :: char where "CR = CHR 0x0D"
definition LF :: char where "LF = CHR 0x0A"
definition DQ :: char where "DQ = CHR 0x22"

definition needs_quoting :: "string \<Rightarrow> bool" where
  "needs_quoting str = list_ex (\<lambda>c. c = DQ \<or> c = CHR '','' \<or> c = LF \<or> c = CR) str"

text \<open>A character that calls for no quoting.\<close>

definition plain :: "char \<Rightarrow> bool" where
  "plain c = (c \<noteq> DQ \<and> c \<noteq> CHR '','' \<and> c \<noteq> LF \<and> c \<noteq> CR)"

fun double_quotes :: "string \<Rightarrow> string" where
  "double_quotes [] = []"
| "double_quotes (c # cs) = (if c = DQ then DQ # DQ # double_quotes cs else c # double_quotes cs)"

definition escapeCsv :: "jsval \<Rightarrow> string" where
  "escapeCsv v =
     (if v = VNull \<or> v = VUndefined then []
      else let str = js_String v
           in if needs_quoting str then [DQ] @ double_quotes str @ [DQ] else str)"

section \<open>The breach lookup client\<close>

definition API_RATE_LIMIT_DELAY_MS :: nat where
  "API_RATE_LIMIT_DELAY_MS = 100"

definition HASH_PREFIX_LENGTH :: nat where
  "HASH_PREFIX_LENGTH = 5"

text \<open>
  \<open>hashCache\<close> is a JavaScript \<open>Map\<close>: keys in insertion order, \<open>set\<close> on a present key
  replaces its value in place, on an absent key appends.
\<close>

type_synonym 'v jsmap = "(string \<times> 'v) list"

fun map_has :: "'v jsmap \<Rightarrow> string \<Rightarrow> bool" where
  "map_has [] k = False"
| "map_has ((k', v) # m) k = (k' = k \<or> map_has m k)"

fun map_get :: "'v jsmap \<Rightarrow> string \<Rightarrow> 'v option" where
  "map_get [] k = None"
| "map_get ((k', v) # m) k = (if k' = k then Some v else map_get m k)"

fun map_set :: "'v jsmap \<Rightarrow> string \<Rightarrow> 'v \<Rightarrow> 'v jsmap" where
  "map_set [] k v = [(k, v)]"
| "map_set ((k', v') # m) k v = (if k' = k then (k, v) # m else (k', v') # map_set m k v)"

definition map_size :: "'v jsmap \<Rightarrow> nat" where
  "map_size m = length m"

text \<open>An element of a cached response: \<open>{ suffix, count }\<close>.\<close>

record entry =
  suffix :: string
  count :: jsnum

text \<open>
  The \<open>options\<close> object handed to \<open>https.get\<close> (\<open>http_method\<close> is its key \<open>method\<close>).
  The request is a \<open>GET\<close>: nothing else is written to it, it has no body.
\<close>

record request =
  hostname :: string
  path :: string
  http_method :: string
  headers :: "(string \<times> string) list"

text \<open>
  What comes back: the request's \<open>error\<close> event with its message, or the response's \<open>end\<close>
  event after all of \<open>data\<close> has arrived, or neither of them, ever (the program sets no
  timeout). The network is a parameter: it says what comes back for the \<open>n\<close>-th request of
  the run.
\<close>

datatype response = NetError string | Data string | NoAnswer

type_synonym network = "nat \<Rightarrow> request \<Rightarrow> response"

text \<open>
  What the run does that is visible from outside, in order: a request sent, the answer to a
  request, a pause of so many milliseconds.
\<close>

datatype event = Request request | Response request response | Delay nat

fun requests :: "event list \<Rightarrow> request list" where
  "requests [] = []"
| "requests (Request r # es) = r # requests es"
| "requests (e # es) = requests es"

fun delays :: "event list \<Rightarrow> nat list" where
  "delays [] = []"
| "delays (Delay ms # es) = ms # delays es"
| "delays (e # es) = delays es"

text \<open>
  The status line of a result; its colours and the locale's digit grouping are left to the
  terminal.
\<close>

datatype status = Safe | Pwned jsnum | Error string

text \<open>
  An element of \<open>passwordEntries\<close>, and an element of \<open>results\<close>, which has the same two
  fields and two more (\<open>r_count\<close> is the source's \<open>count\<close>).
\<close>

record password_entry =
  password :: string
  originalLineNumber :: nat

record result = password_entry +
  r_count :: jsnum
  status :: status

text \<open>The module's cache, the events so far, and the variables of \<open>main\<close>.\<close>

record state =
  hashCache :: "entry list jsmap"
  trace :: "event list"
  results :: "result list"
  checkedCount :: nat
  cachedCount :: nat
  pwnedCount :: nat

text \<open>
  \<open>sha1\<close>: the hexadecimal digest that Node's \<open>crypto\<close> computes, put into upper case. The
  digest function of \<open>crypto\<close> is a parameter \<open>dg\<close> of everything below.
\<close>

type_synonym hasher = "string \<Rightarrow> string"

text \<open>
  \<open>toUpperCase\<close> as it acts on the letters \<open>a\<close> to \<open>z\<close>, the only ones in a hexadecimal
  digest.
\<close>

definition upper_char :: "char \<Rightarrow> char" where
  "upper_char c =
     (case map_of (zip ''abcdefghijklmnopqrstuvwxyz'' ''ABCDEFGHIJKLMNOPQRSTUVWXYZ'') c of
        Some u \<Rightarrow> u
      | None \<Rightarrow> c)"

definition toUpperCase :: "string \<Rightarrow> string" where
  "toUpperCase s = map upper_char s"

definition sha1 :: "hasher \<Rightarrow> string \<Rightarrow> string" where
  "sha1 dg pw = toUpperCase (dg pw)"

definition substring :: "string \<Rightarrow> nat \<Rightarrow> nat \<Rightarrow> string" where
  "substring s i j = take (j - i) (drop i s)"

definition substring_from :: "string \<Rightarrow> nat \<Rightarrow> string" where
  "substring_from s i = drop i s"

text \<open>
  One line of the response: \<open>const [suffix, count] = line.split(':')\<close>. With no colon in the
  line \<open>count\<close> is \<open>undefined\<close>, which \<open>parseInt\<close> reads as the string \<open>undefined\<close>.
  \<open>split\<close> never returns the empty array, so the last equation is never used.
\<close>

fun parse_line :: "string list \<Rightarrow> entry" where
  "parse_line (sfx # cnt # _) = \<lparr>suffix = trim sfx, count = parseInt cnt\<rparr>"
| "parse_line [sfx] = \<lparr>suffix = trim sfx, count = parseInt (js_String VUndefined)\<rparr>"
| "parse_line [] = \<lparr>suffix = [], count = NaN\<rparr>"

definition parse_response :: "string \<Rightarrow> entry list" where
  "parse_response data =
     map (\<lambda>line. parse_line (split line '':''))
       (filter (\<lambda>line. trim line \<noteq> []) (split data [CR, LF]))"

definition find_count :: "entry list \<Rightarrow> string \<Rightarrow> jsnum" where
  "find_count entries sfx =
     (case find (\<lambda>e. suffix e = sfx) entries of Some m \<Rightarrow> count m | None \<Rightarrow> Num 0)"

definition request_options :: "string \<Rightarrow> request" where
  "request_options prefix =
     \<lparr>hostname = ''api.pwnedpasswords.com'',
      path = ''/range/'' @ prefix,
      http_method = ''GET'',
      headers = [(''User-Agent'', ''Password-Checker-Script''), (''Add-Padding'', ''true'')]\<rparr>"

text \<open>
  \<open>checkPassword\<close>: the promise it returns resolves with a count, or rejects with the
  error's message, or stays pending for ever when nothing comes back for the request.
  (Where \<open>has\<close> holds, \<open>get\<close> returns the stored array: the case \<open>None\<close> below is never
  taken.) The function is the same in \<open>pwncheck.js\<close> and in \<open>check-pwned-passwords.js\<close>.
\<close>

datatype outcome = Resolved jsnum | Rejected string | Pending

definition checkPassword :: "hasher \<Rightarrow> network \<Rightarrow> string \<Rightarrow> state \<Rightarrow> outcome \<times> state" where
  "checkPassword dg net pw s =
     (let hash = sha1 dg pw;
          prefix = substring hash 0 HASH_PREFIX_LENGTH;
          sfx = substring_from hash HASH_PREFIX_LENGTH
      in if map_has (hashCache s) prefix then
           (case map_get (hashCache s) prefix of
              Some cachedData \<Rightarrow> (Resolved (find_count cachedData sfx), s)
            | None \<Rightarrow> (Resolved (Num 0), s))
         else
           (let options = request_options prefix;
                s1 = s\<lparr>trace := trace s @ [Request options]\<rparr>
            in case net (length (requests (trace s))) options of
                 NoAnswer \<Rightarrow> (Pending, s1)
               | NetError msg \<Rightarrow>
                   (Rejected msg, s1\<lparr>trace := trace s1 @ [Response options (NetError msg)]\<rparr>)
               | Data data \<Rightarrow>
                   (let s2 = s1\<lparr>trace := trace s1 @ [Response options (Data data)]\<rparr>;
                        entries = parse_response data;
                        s3 = s2\<lparr>hashCache := map_set (hashCache s2) prefix entries\<rparr>
                    in (Resolved (find_count entries sfx), s3))))"

section \<open>The batch loop of \<open>main\<close>\<close>

definition status_of :: "jsnum \<Rightarrow> status" where
  "status_of c = (if eq0 c then Safe else Pwned c)"

text \<open>
  One turn of the \<open>for\<close> loop of \<open>pwncheck.js\<close> (the progress bar it prints is not modelled).
  Where the promise stays pending the \<open>await\<close> never returns: the turn ends neither in the
  \<open>try\<close> block nor in \<open>catch\<close>. The loop of \<open>check-pwned-passwords.js\<close> is the same without
  \<open>originalLineNumber\<close> and \<open>pwnedCount\<close>.
\<close>

definition process_entry :: "hasher \<Rightarrow> network \<Rightarrow> password_entry \<Rightarrow> state \<Rightarrow> state" where
  "process_entry dg net e s =
     (let pw = password e;
          hash = sha1 dg pw;
          prefix = substring hash 0 HASH_PREFIX_LENGTH;
          wasCached = map_has (hashCache s) prefix
      in case checkPassword dg net pw s of
           (Resolved c, s1) \<Rightarrow>
             (let s2 = (if \<not> wasCached
                        then s1\<lparr>checkedCount := checkedCount s1 + 1,
                                trace := trace s1 @ [Delay API_RATE_LIMIT_DELAY_MS]\<rparr>
                        else s1\<lparr>cachedCount := cachedCount s1 + 1\<rparr>);
                  s3 = s2\<lparr>results := results s2 @
                          [\<lparr>password = pw, originalLineNumber = originalLineNumber e,
                            r_count = c, status = status_of c\<rparr>]\<rparr>
              in if gt0 c then s3\<lparr>pwnedCount := pwnedCount s3 + 1\<rparr> else s3)
         | (Rejected msg, s1) \<Rightarrow>
             s1\<lparr>results := results s1 @
                  [\<lparr>password = pw, originalLineNumber = originalLineNumber e,
                    r_count = Num (- 1), status = Error msg\<rparr>]\<rparr>
         | (Pending, s1) \<Rightarrow> s1)"

text \<open>
  The run is waiting for an answer when the last thing it did was to send a request. It
  then waits for ever, and the loop takes no further turn.
\<close>

definition awaiting :: "state \<Rightarrow> bool" where
  "awaiting s = (case rev (trace s) of Request r # _ \<Rightarrow> True | _ \<Rightarrow> False)"

fun batch :: "hasher \<Rightarrow> network \<Rightarrow> password_entry list \<Rightarrow> state \<Rightarrow> state" where
  "batch dg net [] s = s"
| "batch dg net (e # es) s =
     (if awaiting s then s else batch dg net es (process_entry dg net e s))"

definition initial :: state where
  "initial = \<lparr>hashCache = [], trace = [], results = [], checkedCount = 0, cachedCount = 0,
     pwnedCount = 0\<rparr>"

definition main :: "hasher \<Rightarrow> network \<Rightarrow> password_entry list \<Rightarrow> state" where
  "main dg net passwordEntries = batch dg net passwordEntries initial"

section \<open>The export\<close>

text \<open>The \<open>row\<close> array of one result, before \<open>escapeCsv\<close>.\<close>

definition pwned_count_field :: "result \<Rightarrow> jsval" where
  "pwned_count_field r = (if ge0 (r_count r) then VNum (r_count r) else VStr [])"

definition password_field :: "result \<Rightarrow> jsval" where
  "password_field r =
     (if gt0 (r_count r) then VStr (if password r \<noteq> [] then password r else []) else VStr [])"

definition row_values :: "bool \<Rightarrow> result \<Rightarrow> jsval list" where
  "row_values includePasswords r =
     (let row = [VNum (Num (int (originalLineNumber r))), pwned_count_field r]
      in if includePasswords then row @ [password_field r] else row)"

definition export_row :: "bool \<Rightarrow> result \<Rightarrow> string" where
  "export_row includePasswords r = join (map escapeCsv (row_values includePasswords r)) '',''"

definition export_headers :: "bool \<Rightarrow> string list" where
  "export_headers includePasswords =
     (let headers = [''line_number'', ''pwned_count'']
      in if includePasswords then headers @ [''password''] else headers)"

definition export_csv :: "bool \<Rightarrow> result list \<Rightarrow> string" where
  "export_csv includePasswords rs =
     join (join (export_headers includePasswords) '','' # map (export_row includePasswords) rs) [LF]"

section \<open>Notions used in the statements\<close>

text \<open>The two halves of a password's digest, as \<open>checkPassword\<close> and \<open>main\<close> cut it.\<close>

definition prefix_of :: "hasher \<Rightarrow> string \<Rightarrow> string" where
  "prefix_of dg pw = substring (sha1 dg pw) 0 HASH_PREFIX_LENGTH"

definition suffix_of :: "hasher \<Rightarrow> string \<Rightarrow> string" where
  "suffix_of dg pw = substring_from (sha1 dg pw) HASH_PREFIX_LENGTH"

text \<open>The result pushed for an entry.\<close>

definition record_of :: "password_entry \<Rightarrow> jsnum \<Rightarrow> status \<Rightarrow> result" where
  "record_of e c st =
     \<lparr>password = password e, originalLineNumber = originalLineNumber e, r_count = c, status = st\<rparr>"

text \<open>Every string a request carries.\<close>

definition request_strings :: "request \<Rightarrow> string list" where
  "request_strings r =
     [hostname r, path r, http_method r] @ concat (map (\<lambda>(name, v). [name, v]) (headers r))"

text \<open>The requests that were answered with a body, in order.\<close>

fun fetched :: "event list \<Rightarrow> request list" where
  "fetched [] = []"
| "fetched (Response r (Data d) # es) = r # fetched es"
| "fetched (e # es) = fetched es"

text \<open>
  The SHA-1 digests, as \<open>crypto\<close> writes them, of the passwords used in the examples (every
  other argument is mapped to a dummy).
\<close>

definition sample_digest :: hasher where
  "sample_digest pw =
     (if pw = ''password'' then ''5baa61e4c9b93f3f0682250b6cf8331b7ee68fd8''
      else if pw = ''password866713'' then ''5baa6ec34c4fb25040420b0624f826e874094778''
      else if pw = ''password919031'' then ''5baa6de054b9f5c26671257c2d961f7ecd3b0044''
      else replicate 40 (CHR ''0''))"

text \<open>
  Two entries whose digests share the prefix \<open>5BAA6\<close>, a response body that lists both
  suffixes, and three networks: one that fails every request, one that answers every
  request with that body, one that fails the first request and answers the others.
\<close>

definition entry1 :: password_entry where
  "entry1 = \<lparr>password = ''password'', originalLineNumber = 1\<rparr>"

definition entry2 :: password_entry where
  "entry2 = \<lparr>password = ''password866713'', originalLineNumber = 2\<rparr>"

definition sample_body :: string where
  "sample_body =
     ''1E4C9B93F3F0682250B6CF8331B7EE68FD8:3'' @ [CR, LF] @
     ''EC34C4FB25040420B0624F826E874094778:12'' @ [CR, LF]"

definition failing_net :: network where
  "failing_net n r = NetError ''socket hang up''"

definition serving_net :: network where
  "serving_net n r = Data sample_body"

definition flaky_net :: network where
  "flaky_net n r = (if n = 0 then NetError ''socket hang up'' else Data sample_body)"

text \<open>
  The lines of a response: a blank line, or a suffix with white space before and after it, a
  colon and a count in decimal digits. A line is well formed when its blank parts are white
  space, when the suffix neither begins nor ends with white space and has no colon, and when
  there is no carriage return in it.
\<close>

datatype wire = Blank string | Line string string string nat

fun wire_line :: "wire \<Rightarrow> string" where
  "wire_line (Blank b) = b"
| "wire_line (Line before sfx after n) = before @ sfx @ after @ '':'' @ dec n"

definition blank :: "string \<Rightarrow> bool" where
  "blank b = list_all (\<lambda>c. is_ws c \<and> c \<noteq> CR) b"

fun well_formed :: "wire \<Rightarrow> bool" where
  "well_formed (Blank b) = blank b"
| "well_formed (Line before sfx after n) =
     (blank before \<and> blank after \<and> list_all (\<lambda>c. c \<noteq> CHR '':'' \<and> c \<noteq> CR) sfx \<and>
      (sfx = [] \<or> (\<not> is_ws (hd sfx) \<and> \<not> is_ws (last sfx))))"

text \<open>The entries that a list of such lines stands for.\<close>

fun entries_of :: "wire list \<Rightarrow> entry list" where
  "entries_of [] = []"
| "entries_of (Blank b # ls) = entries_of ls"
| "entries_of (Line before sfx after n # ls) =
     \<lparr>suffix = sfx, count = to_number (int n)\<rparr> # entries_of ls"

text \<open>The two fields that a line is read for: what is before its first colon, and what is
  between that colon and the next; \<open>undefined\<close> where the line has no colon.\<close>

definition first_field :: "string \<Rightarrow> string" where
  "first_field l = takeWhile (\<lambda>c. c \<noteq> CHR '':'') l"

definition second_field :: "string \<Rightarrow> string" where
  "second_field l =
     (if CHR '':'' \<in> set l then takeWhile (\<lambda>c. c \<noteq> CHR '':'') (tl (dropWhile (\<lambda>c. c \<noteq> CHR '':'') l))
      else ''undefined'')"

text \<open>
  Two more networks: one answers with the suffix of \<open>password\<close> in lower case, one with a
  body that is no list of suffixes at all.
\<close>

definition lower_body :: string where
  "lower_body = ''1e4c9b93f3f0682250b6cf8331b7ee68fd8:3'' @ [CR, LF]"

definition lower_net :: network where
  "lower_net n r = Data lower_body"

definition garbage_net :: network where
  "garbage_net n r = Data ''<html>503 Service Unavailable</html>''"

text \<open>
  A network that never answers, and one whose body gives the suffix of \<open>password\<close> a negative
  count.
\<close>

definition silent_net :: network where
  "silent_net n r = NoAnswer"

definition negative_body :: string where
  "negative_body = ''1E4C9B93F3F0682250B6CF8331B7EE68FD8:-5'' @ [CR, LF]"

definition negative_net :: network where
  "negative_net n r = Data negative_body"

section \<open>Properties\<close>

lemma double_quotes_concat:
  "double_quotes s = concat (map (\<lambda>c. if c = DQ then [DQ, DQ] else [c]) s)"
  by (induction s) simp_all

lemma needs_quoting_iff:
  "needs_quoting s \<longleftrightarrow> DQ \<in> set s \<or> CHR '','' \<in> set s \<or> LF \<in> set s \<or> CR \<in> set s"
  by (auto simp: needs_quoting_def list_ex_iff)

lemma below_ten: "d < 10 \<Longrightarrow> d \<in> {0, 1, 2, 3, 4, 5, 6, 7, 8, 9::nat}"
  by auto

lemma is_digit_digit_char: "d < 10 \<Longrightarrow> is_digit (digit_char d)"
  by (drule below_ten) (auto simp: is_digit_def digit_char_def)

lemma digit_val_digit_char: "d < 10 \<Longrightarrow> digit_val (digit_char d) = d"
  by (drule below_ten) (auto simp: digit_val_def digit_char_def)

lemma dec_digits: "c \<in> set (dec n) \<Longrightarrow> is_digit c"
proof (induction n arbitrary: c rule: dec.induct)
  case (1 n)
  show ?case
  proof (cases "n < 10")
    case True
    with "1.prems" show ?thesis
      by (simp add: dec.simps [of n] is_digit_digit_char)
  next
    case False
    with "1.prems" have "c \<in> set (dec (n div 10)) \<or> c = digit_char (n mod 10)"
      by (auto simp: dec.simps [of n])
    moreover have "is_digit (digit_char (n mod 10))"
      by (simp add: is_digit_digit_char)
    ultimately show ?thesis
      using False "1.IH" by blast
  qed
qed

lemma digit_not_special: "is_digit c \<Longrightarrow> c \<noteq> DQ \<and> c \<noteq> CHR '','' \<and> c \<noteq> LF \<and> c \<noteq> CR"
  by (auto simp: is_digit_def DQ_def LF_def CR_def)

subsection \<open>Doubles\<close>

lemma bitlen_upper: "n < 2 ^ bitlen n"
proof (induction n rule: bitlen.induct)
  case (1 n)
  show ?case
  proof (cases "n = 0")
    case True
    then show ?thesis by (simp add: bitlen.simps)
  next
    case False
    then have "n div 2 < 2 ^ bitlen (n div 2)"
      using "1.IH" by simp
    then have "n < 2 * 2 ^ bitlen (n div 2)"
      by linarith
    then show ?thesis
      using False by (simp add: bitlen.simps [of n])
  qed
qed

lemma bitlen_lower: "0 < n \<Longrightarrow> 2 ^ (bitlen n - 1) \<le> n"
proof (induction n rule: bitlen.induct)
  case (1 n)
  have n: "bitlen n = Suc (bitlen (n div 2))"
    using "1.prems" by (simp add: bitlen.simps [of n])
  show ?case
  proof (cases "n div 2 = 0")
    case True
    then show ?thesis
      using "1.prems" by (simp add: n bitlen.simps [of 0])
  next
    case False
    then have "2 ^ (bitlen (n div 2) - 1) \<le> n div 2"
      using "1.IH" "1.prems" by simp
    moreover have "bitlen (n div 2) = Suc (bitlen (n div 2) - 1)"
      using False by (simp add: bitlen.simps [of "n div 2"])
    ultimately have "2 ^ bitlen (n div 2) \<le> 2 * (n div 2)"
      by (metis mult_le_mono2 power_Suc)
    then show ?thesis
      by (simp add: n)
  qed
qed

lemma round_double_small: "x < 2 ^ 53 \<Longrightarrow> round_double x = Some x"
  by (simp add: round_double_def)

lemma round_double_big:
  assumes "2 ^ 53 \<le> x" and "round_double x = Some v"
  shows "2 ^ 53 \<le> v"
proof -
  define e where "e = bitlen x - 53"
  define q where "q = x div 2 ^ e"
  define q' where "q' = (if 2 ^ (e - 1) < x mod 2 ^ e \<or> (x mod 2 ^ e = 2 ^ (e - 1) \<and> odd q)
    then q + 1 else q)"
  have "(2::nat) ^ 53 < 2 ^ bitlen x"
    using assms(1) bitlen_upper [of x] by linarith
  then have b: "53 < bitlen x"
    by (simp only: power_strict_increasing_iff rel_simps)
  then have e: "1 \<le> e" and be: "bitlen x - 1 = 52 + e"
    by (simp_all add: e_def)
  have "0 < x" using assms(1) by (cases "x = 0") simp_all
  moreover have "(2::nat) ^ (bitlen x - 1) = 2 ^ 52 * 2 ^ e"
    by (simp only: be power_add)
  ultimately have "(2::nat) ^ 52 * 2 ^ e \<le> x"
    using bitlen_lower [of x] by simp
  then have "2 ^ 52 \<le> q"
    by (simp add: q_def less_eq_div_iff_mult_less_eq)
  then have "2 ^ 52 \<le> q'"
    by (simp add: q'_def)
  moreover have "(2::nat) ^ 1 \<le> 2 ^ e"
    using e by (intro power_increasing) simp_all
  then have "(2::nat) \<le> 2 ^ e"
    by simp
  ultimately have "(2::nat) ^ 52 * 2 \<le> q' * 2 ^ e"
    by (rule mult_le_mono)
  moreover have "round_double x = (if 2 ^ 1024 \<le> q' * 2 ^ e then None else Some (q' * 2 ^ e))"
    using assms(1) unfolding round_double_def Let_def e_def q_def q'_def by simp
  then have "v = q' * 2 ^ e"
    using assms(2) by (simp split: if_splits)
  ultimately show ?thesis by simp
qed

lemma shortest_small: "x < 2 ^ 53 \<Longrightarrow> shortest x j = x"
proof (induction j)
  case 0
  show ?case by simp
next
  case (Suc j)
  define p :: nat where "p = 10 ^ Suc j"
  define lo where "lo = (x div p) * p"
  have p: "0 < p" by (simp add: p_def)
  have lo: "lo \<le> x"
    unfolding lo_def by (rule div_times_less_eq_dividend)
  have "x = lo + x mod p"
    unfolding lo_def by (rule div_mult_mod_eq [symmetric])
  moreover have "x mod p < p"
    using p by (rule mod_less_divisor)
  ultimately have hi: "x < lo + p"
    by linarith
  have "lo < 2 ^ 53"
    using lo Suc.prems by (rule le_less_trans)
  then have "round_double lo = Some lo"
    by (rule round_double_small)
  then have ok_lo: "round_double lo = Some x \<longleftrightarrow> lo = x"
    by (simp only: option.inject)
  have ok_hi: "round_double (lo + p) \<noteq> Some x"
  proof (cases "lo + p < 2 ^ 53")
    case True
    then have "round_double (lo + p) = Some (lo + p)"
      by (rule round_double_small)
    then show ?thesis
      using hi by simp
  next
    case False
    show ?thesis
    proof
      assume a: "round_double (lo + p) = Some x"
      have "2 ^ 53 \<le> lo + p"
        using False by (rule leI)
      then have "2 ^ 53 \<le> x"
        using a by (rule round_double_big)
      then have "\<not> x < 2 ^ 53"
        by (rule leD)
      then show False
        using Suc.prems by (rule notE)
    qed
  qed
  have "shortest x (Suc j) =
      (if round_double lo = Some x \<and> round_double (lo + p) = Some x then
         (if x - lo < lo + p - x then lo
          else if lo + p - x < x - lo then lo + p
          else if even (x div p) then lo else lo + p)
       else if round_double lo = Some x then lo
       else if round_double (lo + p) = Some x then lo + p
       else shortest x j)"
    unfolding shortest.simps Let_def p_def lo_def ..
  also have "\<dots> = (if lo = x then lo else shortest x j)"
    by (simp only: ok_lo ok_hi simp_thms if_False)
  also have "\<dots> = x"
    using Suc.IH [OF Suc.prems] by (cases "lo = x") simp_all
  finally show ?case .
qed

lemma length_dec: "x < 10 ^ Suc k \<Longrightarrow> length (dec x) \<le> Suc k"
proof (induction k arbitrary: x)
  case 0
  then show ?case by (simp add: dec.simps [of x])
next
  case (Suc k)
  show ?case
  proof (cases "x < 10")
    case True
    then show ?thesis by (simp add: dec.simps [of x])
  next
    case False
    have "x < 10 ^ Suc k * 10"
      using Suc.prems by (simp add: ac_simps)
    then have "x div 10 < 10 ^ Suc k"
      by (rule less_mult_imp_div_less)
    then have "length (dec (x div 10)) \<le> Suc k"
      by (rule Suc.IH)
    then show ?thesis
      using False by (simp add: dec.simps [of x])
  qed
qed

lemma number_string_small: "x < 2 ^ 53 \<Longrightarrow> number_string x = dec x"
proof -
  assume x: "x < 2 ^ 53"
  have "(2::nat) ^ 53 \<le> 10 ^ Suc 20" by simp
  then have "x < 10 ^ Suc 20"
    using x by (rule less_le_trans [rotated])
  then have "length (dec x) \<le> Suc 20"
    by (rule length_dec)
  then have "length (dec x) \<le> 21" by simp
  moreover have "shortest x (length (dec x) - 1) = x"
    using x by (rule shortest_small)
  ultimately show ?thesis
    by (simp add: number_string_def Let_def)
qed

lemma js_String_small:
  assumes "0 \<le> n" and "n < 2 ^ 53"
  shows "js_String (VNum (Num n)) = dec (nat n)"
proof -
  have "int (nat n) < int (2 ^ 53)"
    using assms by simp
  then have "nat n < 2 ^ 53"
    by (simp only: of_nat_less_iff)
  then have "number_string (nat n) = dec (nat n)"
    by (rule number_string_small)
  then show ?thesis
    using assms(1) by simp
qed

lemma needs_quoting_plain: "needs_quoting s \<longleftrightarrow> \<not> list_all plain s"
  by (induction s) (auto simp: needs_quoting_def plain_def)

lemma plain_digit: "is_digit c \<Longrightarrow> plain c"
  using digit_not_special by (simp add: plain_def)

lemma plain_dec: "list_all plain (dec n)"
  using dec_digits plain_digit by (auto simp: list_all_iff)

lemma plain_strip_zeros: "list_all plain ds \<Longrightarrow> list_all plain (strip_zeros ds)"
  by (auto simp: strip_zeros_def list_all_iff dest: set_dropWhileD)

lemma plain_number_string: "list_all plain (number_string x)"
proof -
  define ds where "ds = dec (shortest x (length (dec x) - 1))"
  have ds: "list_all plain ds"
    unfolding ds_def by (rule plain_dec)
  then have "list_all plain (strip_zeros ds)"
    by (rule plain_strip_zeros)
  then have m: "list_all plain
      (case strip_zeros ds of [] \<Rightarrow> [] | c # cs \<Rightarrow> (if cs = [] then [c] else c # CHR ''.'' # cs))"
    by (cases "strip_zeros ds") (simp_all add: plain_def DQ_def LF_def CR_def)
  have "number_string x = (if length ds \<le> 21 then ds
      else (case strip_zeros ds of [] \<Rightarrow> [] | c # cs \<Rightarrow> (if cs = [] then [c] else c # CHR ''.'' # cs))
           @ ''e+'' @ dec (length ds - 1))"
    unfolding number_string_def Let_def ds_def ..
  then show ?thesis
    using ds m plain_dec [of "length ds - 1"]
    by (simp add: plain_def DQ_def LF_def CR_def)
qed

lemma plain_number: "list_all plain (js_String (VNum c))"
proof (cases c)
  case (Num n)
  then show ?thesis
    using plain_number_string [of "nat n"] plain_number_string [of "nat (- n)"]
    by (simp add: plain_def DQ_def LF_def CR_def)
qed (simp_all add: plain_def DQ_def LF_def CR_def)

lemma escapeCsv_number: "escapeCsv (VNum c) = js_String (VNum c)"
  by (simp add: escapeCsv_def needs_quoting_plain plain_number)

lemma escapeCsv_empty: "escapeCsv (VStr []) = []"
  by (simp add: escapeCsv_def needs_quoting_def)

lemma escapeCsv_string:
  "escapeCsv (VStr s) =
     (if DQ \<in> set s \<or> CHR '','' \<in> set s \<or> LF \<in> set s \<or> CR \<in> set s
      then [DQ] @ concat (map (\<lambda>c. if c = DQ then [DQ, DQ] else [c]) s) @ [DQ]
      else s)"
  by (simp add: escapeCsv_def needs_quoting_iff double_quotes_concat)

lemma number_string_exponent: "number_string 1000000000000000000000 = ''1e+21''"
  by (simp add: number_string_def strip_zeros_def round_double_def Let_def dec.simps
      digit_char_def bitlen.simps)

text \<open>
  Claim C9. A value written to a field is never \<open>null\<close> or \<open>undefined\<close>. If its string form
  contains a comma, a double quote, a line feed or a carriage return, the value is written
  between double quotes with every double quote inside doubled; otherwise its string form is
  written unchanged. So it is for a string, which is its own string form; the string form of
  a number never needs quoting, and below \<open>2^53\<close> it is the decimal digits of the number.
  The field \<open>a,"b"\<close> is written as \<open>"a,""b"""\<close>.
\<close>

theorem escapeCsv_rule:
  \<open>(v \<noteq> VNull \<and> v \<noteq> VUndefined \<longrightarrow>
      escapeCsv v =
        (if DQ \<in> set (js_String v) \<or> CHR '','' \<in> set (js_String v) \<or> LF \<in> set (js_String v)
            \<or> CR \<in> set (js_String v)
         then [DQ] @ concat (map (\<lambda>c. if c = DQ then [DQ, DQ] else [c]) (js_String v)) @ [DQ]
         else js_String v))
   \<and> VNull \<notin> set (row_values includePasswords r)
   \<and> VUndefined \<notin> set (row_values includePasswords r)
   \<and> escapeCsv (VStr s) =
     (if DQ \<in> set s \<or> CHR '','' \<in> set s \<or> LF \<in> set s \<or> CR \<in> set s
      then [DQ] @ concat (map (\<lambda>c. if c = DQ then [DQ, DQ] else [c]) s) @ [DQ]
      else s)
   \<and> escapeCsv (VNum c) = js_String (VNum c)
   \<and> (k < 2 ^ 53 \<longrightarrow> escapeCsv (VNum (Num (int k))) = dec k)
   \<and> escapeCsv (VStr ''a,"b"'') = ''"a,""b"""''\<close>
proof -
  have 1: "v \<noteq> VNull \<and> v \<noteq> VUndefined \<longrightarrow>
      escapeCsv v =
        (if DQ \<in> set (js_String v) \<or> CHR '','' \<in> set (js_String v) \<or> LF \<in> set (js_String v)
            \<or> CR \<in> set (js_String v)
         then [DQ] @ concat (map (\<lambda>c. if c = DQ then [DQ, DQ] else [c]) (js_String v)) @ [DQ]
         else js_String v)"
    by (simp add: escapeCsv_def needs_quoting_iff double_quotes_concat)
  have 2: "VNull \<notin> set (row_values includePasswords r)"
    by (simp add: row_values_def pwned_count_field_def password_field_def Let_def)
  have 3: "VUndefined \<notin> set (row_values includePasswords r)"
    by (simp add: row_values_def pwned_count_field_def password_field_def Let_def)
  have 4: "k < 2 ^ 53 \<longrightarrow> escapeCsv (VNum (Num (int k))) = dec k"
  proof
    assume "k < 2 ^ 53"
    then have "number_string k = dec k"
      by (rule number_string_small)
    then show "escapeCsv (VNum (Num (int k))) = dec k"
      by (simp add: escapeCsv_number)
  qed
  have 5: \<open>escapeCsv (VStr ''a,"b"'') = ''"a,""b"""''\<close>
    by (simp add: escapeCsv_def needs_quoting_def DQ_def)
  from 1 2 3 escapeCsv_string [of s] escapeCsv_number [of c] 4 5 show ?thesis
    by (intro conjI)
qed

theorem escapeCsv_rule_witness:
  \<open>escapeCsv (VStr ''say "hi"'') = ''"say ""hi"""'' \<and> escapeCsv (VStr ''hunter2'') = ''hunter2''
   \<and> escapeCsv (VNum (Num 42)) = ''42'' \<and> escapeCsv (VNum NaN) = ''NaN''
   \<and> escapeCsv (VNum (Num 1000000000000000000000)) = ''1e+21''\<close>
proof -
  have 1: \<open>escapeCsv (VStr ''say "hi"'') = ''"say ""hi"""''\<close>
    using escapeCsv_rule [of \<open>VStr ''say "hi"''\<close> True undefined \<open>[]\<close> NaN 0, THEN conjunct1]
    by (simp add: DQ_def LF_def CR_def)
  have 2: \<open>escapeCsv (VStr ''hunter2'') = ''hunter2''\<close>
    using escapeCsv_rule [of \<open>VStr ''hunter2''\<close> True undefined \<open>[]\<close> NaN 0, THEN conjunct1]
    by (simp add: DQ_def LF_def CR_def)
  have 3: \<open>escapeCsv (VNum (Num 42)) = ''42''\<close>
    using escapeCsv_rule [of \<open>VNum NaN\<close> True undefined \<open>[]\<close> NaN 42]
    by (simp add: dec.simps digit_char_def)
  have 4: \<open>escapeCsv (VNum NaN) = ''NaN''\<close>
    using escapeCsv_rule [of \<open>VNum NaN\<close> True undefined \<open>[]\<close> NaN 0, THEN conjunct1]
    by (simp add: DQ_def LF_def CR_def)
  have 5: \<open>escapeCsv (VNum (Num 1000000000000000000000)) = ''1e+21''\<close>
    using escapeCsv_rule [of \<open>VNum NaN\<close> True undefined \<open>[]\<close> \<open>Num 1000000000000000000000\<close> 0]
    by (simp add: number_string_exponent)
  from 1 2 3 4 5 show ?thesis by (intro conjI)
qed

text \<open>
  Claim C4. The exported row of a result is its line number, then its count when the count
  is at least \<open>0\<close> and nothing otherwise (nothing for the failure sentinel \<open>-1\<close>, for any other
  negative count and for \<open>NaN\<close>; \<open>0\<close> for a safe entry), then, only when \<open>includePasswords\<close>
  is set, a third field: the escaped password when the count is greater than \<open>0\<close> and nothing
  otherwise. A number is written in its string form, below \<open>2^53\<close> its decimal digits.
\<close>

theorem export_row_fields:
  "export_row includePasswords r =
     js_String (VNum (Num (int (originalLineNumber r)))) @ '','' @
     (if ge0 (r_count r) then js_String (VNum (r_count r)) else []) @
     (if includePasswords
      then '','' @ (if gt0 (r_count r) then escapeCsv (VStr (password r)) else [])
      else [])
   \<and> (originalLineNumber r < 2 ^ 53 \<longrightarrow>
        js_String (VNum (Num (int (originalLineNumber r)))) = dec (originalLineNumber r))
   \<and> (\<forall>n. r_count r = Num n \<and> 0 \<le> n \<and> n < 2 ^ 53 \<longrightarrow>
        js_String (VNum (r_count r)) = dec (nat n))
   \<and> (r_count r = Num (- 1) \<or> r_count r = NaN \<or> r_count r = NegInfinity \<longrightarrow> \<not> ge0 (r_count r))"
proof -
  have 1: "export_row includePasswords r =
     js_String (VNum (Num (int (originalLineNumber r)))) @ '','' @
     (if ge0 (r_count r) then js_String (VNum (r_count r)) else []) @
     (if includePasswords
      then '','' @ (if gt0 (r_count r) then escapeCsv (VStr (password r)) else [])
      else [])"
    by (simp add: export_row_def row_values_def pwned_count_field_def password_field_def Let_def
        escapeCsv_number escapeCsv_empty del: js_String.simps)
  have 2: "originalLineNumber r < 2 ^ 53 \<longrightarrow>
        js_String (VNum (Num (int (originalLineNumber r)))) = dec (originalLineNumber r)"
    by (simp add: number_string_small)
  have 3: "\<forall>n. r_count r = Num n \<and> 0 \<le> n \<and> n < 2 ^ 53 \<longrightarrow>
        js_String (VNum (r_count r)) = dec (nat n)"
  proof (intro allI impI)
    fix n
    assume a: "r_count r = Num n \<and> 0 \<le> n \<and> n < 2 ^ 53"
    then have "js_String (VNum (Num n)) = dec (nat n)"
      by (intro js_String_small) simp_all
    then show "js_String (VNum (r_count r)) = dec (nat n)"
      using a by (simp only:)
  qed
  have 4: "r_count r = Num (- 1) \<or> r_count r = NaN \<or> r_count r = NegInfinity \<longrightarrow> \<not> ge0 (r_count r)"
    by auto
  from 1 2 3 4 show ?thesis
    by (intro conjI)
qed

theorem export_row_fields_witness:
  "export_row True \<lparr>password = ''hunter2'', originalLineNumber = 3, r_count = Num 0, status = Safe\<rparr>
     = ''3,0,''
   \<and> export_row True \<lparr>password = ''hunter2'', originalLineNumber = 4, r_count = Num (- 1),
        status = Error ''socket hang up''\<rparr> = ''4,,''
   \<and> export_row True \<lparr>password = ''123456'', originalLineNumber = 5, r_count = Num 7,
        status = Pwned (Num 7)\<rparr> = ''5,7,123456''
   \<and> export_row False \<lparr>password = ''123456'', originalLineNumber = 5, r_count = Num 7,
        status = Pwned (Num 7)\<rparr> = ''5,7''
   \<and> export_row True \<lparr>password = ''123456'', originalLineNumber = 6, r_count = NaN,
        status = Pwned NaN\<rparr> = ''6,,''
   \<and> export_row True \<lparr>password = ''password'', originalLineNumber = 7,
        r_count = Num 1000000000000000000000, status = Pwned (Num 1000000000000000000000)\<rparr> =
       ''7,1e+21,password''
   \<and> export_csv True
        [\<lparr>password = ''hunter2'', originalLineNumber = 3, r_count = Num 0, status = Safe\<rparr>,
         \<lparr>password = ''hunter2'', originalLineNumber = 4, r_count = Num (- 1),
           status = Error ''socket hang up''\<rparr>,
         \<lparr>password = ''123456'', originalLineNumber = 5, r_count = Num 7, status = Pwned (Num 7)\<rparr>]
       = ''line_number,pwned_count,password'' @ [LF] @ ''3,0,'' @ [LF] @ ''4,,'' @ [LF] @ ''5,7,123456''"
proof -
  have 1: "export_row True \<lparr>password = ''hunter2'', originalLineNumber = 3, r_count = Num 0, status = Safe\<rparr>
     = ''3,0,''"
    using export_row_fields [of True "\<lparr>password = ''hunter2'', originalLineNumber = 3,
      r_count = Num 0, status = Safe\<rparr>"]
    by (simp add: dec.simps digit_char_def)
  have 2: "export_row True \<lparr>password = ''hunter2'', originalLineNumber = 4, r_count = Num (- 1),
        status = Error ''socket hang up''\<rparr> = ''4,,''"
    using export_row_fields [of True "\<lparr>password = ''hunter2'', originalLineNumber = 4,
      r_count = Num (- 1), status = Error ''socket hang up''\<rparr>"]
    by (simp add: dec.simps digit_char_def)
  have 3: "export_row True \<lparr>password = ''123456'', originalLineNumber = 5, r_count = Num 7,
        status = Pwned (Num 7)\<rparr> = ''5,7,123456''"
    using export_row_fields [of True "\<lparr>password = ''123456'', originalLineNumber = 5,
      r_count = Num 7, status = Pwned (Num 7)\<rparr>"]
    by (simp add: dec.simps digit_char_def escapeCsv_def needs_quoting_def DQ_def LF_def CR_def)
  have 4: "export_row False \<lparr>password = ''123456'', originalLineNumber = 5, r_count = Num 7,
        status = Pwned (Num 7)\<rparr> = ''5,7''"
    using export_row_fields [of False "\<lparr>password = ''123456'', originalLineNumber = 5,
      r_count = Num 7, status = Pwned (Num 7)\<rparr>"]
    by (simp add: dec.simps digit_char_def)
  have 5: "export_row True \<lparr>password = ''123456'', originalLineNumber = 6, r_count = NaN,
        status = Pwned NaN\<rparr> = ''6,,''"
    using export_row_fields [of True "\<lparr>password = ''123456'', originalLineNumber = 6,
      r_count = NaN, status = Pwned NaN\<rparr>"]
    by (simp add: dec.simps digit_char_def)
  have 6: "export_csv True
        [\<lparr>password = ''hunter2'', originalLineNumber = 3, r_count = Num 0, status = Safe\<rparr>,
         \<lparr>password = ''hunter2'', originalLineNumber = 4, r_count = Num (- 1),
           status = Error ''socket hang up''\<rparr>,
         \<lparr>password = ''123456'', originalLineNumber = 5, r_count = Num 7, status = Pwned (Num 7)\<rparr>]
       = ''line_number,pwned_count,password'' @ [LF] @ ''3,0,'' @ [LF] @ ''4,,'' @ [LF] @ ''5,7,123456''"
    by (simp add: export_csv_def export_headers_def 1 2 3)
  have 7: "export_row True \<lparr>password = ''password'', originalLineNumber = 7,
        r_count = Num 1000000000000000000000, status = Pwned (Num 1000000000000000000000)\<rparr> =
       ''7,1e+21,password''"
    using export_row_fields [of True "\<lparr>password = ''password'', originalLineNumber = 7,
      r_count = Num 1000000000000000000000, status = Pwned (Num 1000000000000000000000)\<rparr>",
      THEN conjunct1]
    by (simp add: number_string_exponent number_string_small escapeCsv_def needs_quoting_def
        DQ_def LF_def CR_def dec.simps digit_char_def)
  from 1 2 3 4 5 7 6 show ?thesis by (intro conjI)
qed

subsection \<open>The cache\<close>

lemma map_has_get: "map_has m k \<longleftrightarrow> map_get m k \<noteq> None"
  by (induction m) auto

lemma map_has_keys: "map_has m k \<longleftrightarrow> k \<in> fst ` set m"
  by (induction m) auto

lemma map_get_set: "map_get (map_set m k v) k' = (if k' = k then Some v else map_get m k')"
  by (induction m) auto

lemma map_has_set: "map_has (map_set m k v) k' \<longleftrightarrow> k' = k \<or> map_has m k'"
  by (simp add: map_has_get map_get_set)

subsection \<open>The four ways a lookup can go\<close>

lemma checkPassword_hit:
  assumes "map_get (hashCache s) (prefix_of dg pw) = Some d"
  shows "checkPassword dg net pw s = (Resolved (find_count d (suffix_of dg pw)), s)"
  using assms by (simp add: checkPassword_def prefix_of_def suffix_of_def map_has_get Let_def)

lemma checkPassword_error:
  assumes "\<not> map_has (hashCache s) (prefix_of dg pw)"
    and "net (length (requests (trace s))) (request_options (prefix_of dg pw)) = NetError msg"
  shows "checkPassword dg net pw s =
    (Rejected msg, s\<lparr>trace := trace s @
       [Request (request_options (prefix_of dg pw)), Response (request_options (prefix_of dg pw)) (NetError msg)]\<rparr>)"
  using assms by (simp add: checkPassword_def prefix_of_def suffix_of_def Let_def)

lemma checkPassword_data:
  assumes "\<not> map_has (hashCache s) (prefix_of dg pw)"
    and "net (length (requests (trace s))) (request_options (prefix_of dg pw)) = Data body"
  shows "checkPassword dg net pw s =
    (Resolved (find_count (parse_response body) (suffix_of dg pw)),
     s\<lparr>trace := trace s @
          [Request (request_options (prefix_of dg pw)), Response (request_options (prefix_of dg pw)) (Data body)],
       hashCache := map_set (hashCache s) (prefix_of dg pw) (parse_response body)\<rparr>)"
  using assms by (simp add: checkPassword_def prefix_of_def suffix_of_def Let_def)

lemma checkPassword_silent:
  assumes "\<not> map_has (hashCache s) (prefix_of dg pw)"
    and "net (length (requests (trace s))) (request_options (prefix_of dg pw)) = NoAnswer"
  shows "checkPassword dg net pw s =
    (Pending, s\<lparr>trace := trace s @ [Request (request_options (prefix_of dg pw))]\<rparr>)"
  using assms by (simp add: checkPassword_def prefix_of_def suffix_of_def Let_def)

lemma process_entry_hit:
  assumes "map_get (hashCache s) (prefix_of dg (password e)) = Some d"
  shows "process_entry dg net e s =
    s\<lparr>cachedCount := cachedCount s + 1,
      results := results s @ [record_of e (find_count d (suffix_of dg (password e)))
         (status_of (find_count d (suffix_of dg (password e))))],
      pwnedCount := (if gt0 (find_count d (suffix_of dg (password e)))
         then pwnedCount s + 1 else pwnedCount s)\<rparr>"
proof -
  have "map_has (hashCache s) (substring (sha1 dg (password e)) 0 HASH_PREFIX_LENGTH)"
    using assms by (simp add: map_has_get prefix_of_def)
  then show ?thesis
    using checkPassword_hit [OF assms, of net]
    by (simp add: process_entry_def Let_def record_of_def)
qed

lemma process_entry_error:
  assumes "\<not> map_has (hashCache s) (prefix_of dg (password e))"
    and "net (length (requests (trace s))) (request_options (prefix_of dg (password e))) =
      NetError msg"
  shows "process_entry dg net e s =
    s\<lparr>trace := trace s @
         [Request (request_options (prefix_of dg (password e))), Response (request_options (prefix_of dg (password e))) (NetError msg)],
      results := results s @ [record_of e (Num (- 1)) (Error msg)]\<rparr>"
  using checkPassword_error [where net = net, OF assms]
  by (simp add: process_entry_def Let_def record_of_def)

lemma process_entry_data:
  assumes "\<not> map_has (hashCache s) (prefix_of dg (password e))"
    and "net (length (requests (trace s))) (request_options (prefix_of dg (password e))) =
      Data body"
  shows "process_entry dg net e s =
    s\<lparr>trace := trace s @
         [Request (request_options (prefix_of dg (password e))), Response (request_options (prefix_of dg (password e))) (Data body),
          Delay API_RATE_LIMIT_DELAY_MS],
      hashCache := map_set (hashCache s) (prefix_of dg (password e)) (parse_response body),
      checkedCount := checkedCount s + 1,
      results := results s @
        [record_of e (find_count (parse_response body) (suffix_of dg (password e)))
           (status_of (find_count (parse_response body) (suffix_of dg (password e))))],
      pwnedCount := (if gt0 (find_count (parse_response body) (suffix_of dg (password e)))
         then pwnedCount s + 1 else pwnedCount s)\<rparr>"
proof -
  have "\<not> map_has (hashCache s) (substring (sha1 dg (password e)) 0 HASH_PREFIX_LENGTH)"
    using assms(1) by (simp add: prefix_of_def)
  then show ?thesis
    using checkPassword_data [where net = net, OF assms]
    by (simp add: process_entry_def Let_def record_of_def)
qed

lemma process_entry_silent:
  assumes "\<not> map_has (hashCache s) (prefix_of dg (password e))"
    and "net (length (requests (trace s))) (request_options (prefix_of dg (password e))) =
      NoAnswer"
  shows "process_entry dg net e s =
    s\<lparr>trace := trace s @ [Request (request_options (prefix_of dg (password e)))]\<rparr>"
  using checkPassword_silent [where net = net, OF assms]
  by (simp add: process_entry_def Let_def)

lemma process_entry_cases:
  obtains (hit) d where "map_get (hashCache s) (prefix_of dg (password e)) = Some d"
  | (error) msg where "\<not> map_has (hashCache s) (prefix_of dg (password e))"
      "net (length (requests (trace s))) (request_options (prefix_of dg (password e))) =
        NetError msg"
  | (data) body where "\<not> map_has (hashCache s) (prefix_of dg (password e))"
      "net (length (requests (trace s))) (request_options (prefix_of dg (password e))) =
        Data body"
  | (silent) "\<not> map_has (hashCache s) (prefix_of dg (password e))"
      "net (length (requests (trace s))) (request_options (prefix_of dg (password e))) =
        NoAnswer"
proof (cases "map_has (hashCache s) (prefix_of dg (password e))")
  case True
  then show ?thesis using hit by (auto simp: map_has_get)
next
  case False
  then show ?thesis
    using error data silent
    by (cases "net (length (requests (trace s))) (request_options (prefix_of dg (password e)))")
      auto
qed

subsection \<open>Waiting for an answer\<close>

lemma awaiting_snoc:
  "awaiting (s\<lparr>trace := t @ [x]\<rparr>) = (case x of Request r \<Rightarrow> True | _ \<Rightarrow> False)"
  by (simp add: awaiting_def)

lemma awaiting_trace: "trace s' = trace s \<Longrightarrow> awaiting s' = awaiting s"
  by (simp add: awaiting_def)

lemma awaiting_hit:
  assumes "map_get (hashCache s) (prefix_of dg (password e)) = Some d"
  shows "awaiting (process_entry dg net e s) = awaiting s"
  by (rule awaiting_trace) (simp add: process_entry_hit [OF assms])

lemma awaiting_error:
  assumes "\<not> map_has (hashCache s) (prefix_of dg (password e))"
    and "net (length (requests (trace s))) (request_options (prefix_of dg (password e))) =
      NetError msg"
  shows "\<not> awaiting (process_entry dg net e s)"
  by (simp add: process_entry_error [where net = net, OF assms] awaiting_def)

lemma awaiting_data:
  assumes "\<not> map_has (hashCache s) (prefix_of dg (password e))"
    and "net (length (requests (trace s))) (request_options (prefix_of dg (password e))) =
      Data body"
  shows "\<not> awaiting (process_entry dg net e s)"
  by (simp add: process_entry_data [where net = net, OF assms] awaiting_def)

lemma awaiting_silent:
  assumes "\<not> map_has (hashCache s) (prefix_of dg (password e))"
    and "net (length (requests (trace s))) (request_options (prefix_of dg (password e))) =
      NoAnswer"
  shows "awaiting (process_entry dg net e s)"
  by (simp add: process_entry_silent [where net = net, OF assms] awaiting_def)

lemma awaiting_initial: "\<not> awaiting initial"
  by (simp add: awaiting_def initial_def)

subsection \<open>The loop\<close>

lemma batch_awaiting: "awaiting s \<Longrightarrow> batch dg net es s = s"
  by (cases es) simp_all

lemma batch_append: "batch dg net (xs @ ys) s = batch dg net ys (batch dg net xs s)"
  by (induction xs arbitrary: s) (simp_all add: batch_awaiting)

lemma batch_snoc:
  "batch dg net (xs @ [e]) s =
     (if awaiting (batch dg net xs s) then batch dg net xs s
      else process_entry dg net e (batch dg net xs s))"
  by (simp add: batch_append)

lemma batch_take_Suc:
  "i < length es \<Longrightarrow>
   batch dg net (take (Suc i) es) s =
     (if awaiting (batch dg net (take i es) s) then batch dg net (take i es) s
      else process_entry dg net (es ! i) (batch dg net (take i es) s))"
  by (simp add: take_Suc_conv_app_nth batch_snoc)

lemma batch_split:
  "batch dg net es s = batch dg net (drop i es) (batch dg net (take i es) s)"
  using batch_append [of dg net "take i es" "drop i es" s] by simp

lemma awaiting_batch: "awaiting s \<Longrightarrow> awaiting (batch dg net es s)"
  by (simp add: batch_awaiting)

lemma awaiting_take:
  assumes "\<not> awaiting (batch dg net es s)"
  shows "\<not> awaiting (batch dg net (take i es) s)"
proof
  assume "awaiting (batch dg net (take i es) s)"
  then have "awaiting (batch dg net (drop i es) (batch dg net (take i es) s))"
    by (rule awaiting_batch)
  then show False
    using assms batch_split [of dg net es s i] by simp
qed

lemma answered_step:
  assumes "\<forall>n r. net n r \<noteq> NoAnswer" and "\<not> awaiting s"
  shows "\<not> awaiting (process_entry dg net e s)"
proof (cases rule: process_entry_cases [where s = s and dg = dg and e = e and net = net])
  case (hit d)
  then show ?thesis using assms(2) by (simp add: awaiting_hit)
next
  case (error msg)
  then show ?thesis by (rule awaiting_error)
next
  case (data body)
  then show ?thesis by (rule awaiting_data)
next
  case silent
  then show ?thesis using assms(1) by simp
qed

lemma answered_batch:
  assumes "\<forall>n r. net n r \<noteq> NoAnswer" and "\<not> awaiting s"
  shows "\<not> awaiting (batch dg net es s)"
  using assms(2)
proof (induction es arbitrary: s)
  case Nil
  then show ?case by simp
next
  case (Cons e es)
  have "\<not> awaiting (process_entry dg net e s)"
    using assms(1) Cons.prems by (rule answered_step)
  then have "\<not> awaiting (batch dg net es (process_entry dg net e s))"
    by (rule Cons.IH)
  then show ?case
    using Cons.prems by simp
qed

lemma requests_append: "requests (xs @ ys) = requests xs @ requests ys"
  by (induction xs rule: requests.induct) simp_all

lemma delays_append: "delays (xs @ ys) = delays xs @ delays ys"
  by (induction xs rule: delays.induct) simp_all

lemma fetched_append: "fetched (xs @ ys) = fetched xs @ fetched ys"
  by (induction xs rule: fetched.induct) simp_all

lemma map_set_absent: "\<not> map_has m k \<Longrightarrow> map_set m k v = m @ [(k, v)]"
  by (induction m) auto

lemma record_of_sel [simp]:
  "password (record_of e c st) = password e"
  "originalLineNumber (record_of e c st) = originalLineNumber e"
  "r_count (record_of e c st) = c"
  "status (record_of e c st) = st"
  by (simp_all add: record_of_def)

subsection \<open>The record of a turn\<close>

lemma turn_resolved:
  assumes "fst (checkPassword dg net (password e) s) = Resolved c" and "\<not> awaiting s"
  shows "results (process_entry dg net e s) = results s @ [record_of e c (status_of c)]
    \<and> \<not> awaiting (process_entry dg net e s)"
proof (cases rule: process_entry_cases [where s = s and dg = dg and e = e and net = net])
  case (hit d)
  have "c = find_count d (suffix_of dg (password e))"
    using assms(1) by (simp add: checkPassword_hit [OF hit])
  then have "results (process_entry dg net e s) = results s @ [record_of e c (status_of c)]"
    by (simp add: process_entry_hit [OF hit])
  moreover have "\<not> awaiting (process_entry dg net e s)"
    using assms(2) by (simp add: awaiting_hit [OF hit])
  ultimately show ?thesis ..
next
  case (error msg)
  then show ?thesis
    using assms(1) by (simp add: checkPassword_error [where net = net, OF error])
next
  case (data body)
  have "c = find_count (parse_response body) (suffix_of dg (password e))"
    using assms(1) by (simp add: checkPassword_data [where net = net, OF data])
  moreover have "\<not> awaiting (process_entry dg net e s)"
    using data by (rule awaiting_data)
  ultimately show ?thesis
    by (simp add: process_entry_data [where net = net, OF data])
next
  case silent
  then show ?thesis
    using assms(1) by (simp add: checkPassword_silent [where net = net, OF silent])
qed

lemma turn_rejected:
  assumes "fst (checkPassword dg net (password e) s) = Rejected msg"
  shows "results (process_entry dg net e s) = results s @ [record_of e (Num (- 1)) (Error msg)]
    \<and> \<not> awaiting (process_entry dg net e s)"
proof (cases rule: process_entry_cases [where s = s and dg = dg and e = e and net = net])
  case (hit d)
  then show ?thesis
    using assms by (simp add: checkPassword_hit [OF hit])
next
  case (error m)
  have "m = msg"
    using assms by (simp add: checkPassword_error [where net = net, OF error])
  moreover have "\<not> awaiting (process_entry dg net e s)"
    using error by (rule awaiting_error)
  ultimately show ?thesis
    by (simp add: process_entry_error [where net = net, OF error])
next
  case (data body)
  then show ?thesis
    using assms by (simp add: checkPassword_data [where net = net, OF data])
next
  case silent
  then show ?thesis
    using assms by (simp add: checkPassword_silent [where net = net, OF silent])
qed

lemma turn_pending:
  assumes "fst (checkPassword dg net (password e) s) = Pending"
  shows "results (process_entry dg net e s) = results s \<and> awaiting (process_entry dg net e s)"
proof (cases rule: process_entry_cases [where s = s and dg = dg and e = e and net = net])
  case (hit d)
  then show ?thesis
    using assms by (simp add: checkPassword_hit [OF hit])
next
  case (error m)
  then show ?thesis
    using assms by (simp add: checkPassword_error [where net = net, OF error])
next
  case (data body)
  then show ?thesis
    using assms by (simp add: checkPassword_data [where net = net, OF data])
next
  case silent
  have "awaiting (process_entry dg net e s)"
    using silent by (rule awaiting_silent)
  then show ?thesis
    by (simp add: process_entry_silent [where net = net, OF silent])
qed

lemma process_entry_results:
  assumes "\<not> awaiting s"
  shows "(\<exists>c st. results (process_entry dg net e s) = results s @ [record_of e c st]
       \<and> \<not> awaiting (process_entry dg net e s))
   \<or> (results (process_entry dg net e s) = results s \<and> awaiting (process_entry dg net e s))"
proof (cases "fst (checkPassword dg net (password e) s)")
  case (Resolved c)
  then show ?thesis
    using turn_resolved [OF Resolved assms] by blast
next
  case (Rejected msg)
  then show ?thesis
    using turn_rejected [OF Rejected] by blast
next
  case Pending
  then show ?thesis
    using turn_pending [OF Pending] by blast
qed

subsection \<open>The records of a run\<close>

lemma batch_results:
  "\<exists>rs. results (batch dg net es s) = results s @ rs \<and>
     map (\<lambda>r. (password r, originalLineNumber r)) rs =
     map (\<lambda>e. (password e, originalLineNumber e)) (take (length rs) es) \<and>
     (\<not> awaiting (batch dg net es s) \<longrightarrow> length rs = length es)"
proof (induction es arbitrary: s)
  case Nil
  show ?case by simp
next
  case (Cons e es)
  show ?case
  proof (cases "awaiting s")
    case True
    then have "results (batch dg net (e # es) s) = results s @ []"
      and "awaiting (batch dg net (e # es) s)"
      by simp_all
    then show ?thesis
      by (intro exI [of _ "[]"]) simp
  next
    case False
    let ?s1 = "process_entry dg net e s"
    have b: "batch dg net (e # es) s = batch dg net es ?s1"
      using False by simp
    from process_entry_results [OF False, of dg net e] show ?thesis
    proof
      assume "\<exists>c st. results ?s1 = results s @ [record_of e c st] \<and> \<not> awaiting ?s1"
      then obtain c st where step: "results ?s1 = results s @ [record_of e c st]"
        by blast
      obtain rs where rest:
        "results (batch dg net es ?s1) = results ?s1 @ rs"
        "map (\<lambda>r. (password r, originalLineNumber r)) rs =
           map (\<lambda>e. (password e, originalLineNumber e)) (take (length rs) es)"
        "\<not> awaiting (batch dg net es ?s1) \<longrightarrow> length rs = length es"
        using Cons.IH [of ?s1] by blast
      have "results (batch dg net (e # es) s) = results s @ (record_of e c st # rs)"
        using step rest(1) b by simp
      moreover have "map (\<lambda>r. (password r, originalLineNumber r)) (record_of e c st # rs) =
          map (\<lambda>e. (password e, originalLineNumber e)) (take (length (record_of e c st # rs)) (e # es))"
        using rest(2) by simp
      moreover have "\<not> awaiting (batch dg net (e # es) s) \<longrightarrow>
          length (record_of e c st # rs) = length (e # es)"
        using rest(3) b by simp
      ultimately show ?thesis by blast
    next
      assume stuck: "results ?s1 = results s \<and> awaiting ?s1"
      then have "batch dg net (e # es) s = ?s1"
        using b by (simp add: batch_awaiting)
      then have "results (batch dg net (e # es) s) = results s @ []"
        and "awaiting (batch dg net (e # es) s)"
        using stuck by simp_all
      then show ?thesis
        by (intro exI [of _ "[]"]) simp
    qed
  qed
qed

lemma batch_results_complete:
  assumes "\<not> awaiting (batch dg net es s)"
  shows "length (results (batch dg net es s)) = length (results s) + length es"
    and "map (\<lambda>r. (password r, originalLineNumber r)) (drop (length (results s)) (results (batch dg net es s))) =
       map (\<lambda>e. (password e, originalLineNumber e)) es"
proof -
  obtain rs where rs: "results (batch dg net es s) = results s @ rs"
    "map (\<lambda>r. (password r, originalLineNumber r)) rs =
       map (\<lambda>e. (password e, originalLineNumber e)) (take (length rs) es)"
    "\<not> awaiting (batch dg net es s) \<longrightarrow> length rs = length es"
    using batch_results by blast
  have len: "length rs = length es"
    using rs(3) assms by simp
  show "length (results (batch dg net es s)) = length (results s) + length es"
    using rs(1) len by simp
  show "map (\<lambda>r. (password r, originalLineNumber r)) (drop (length (results s)) (results (batch dg net es s))) =
       map (\<lambda>e. (password e, originalLineNumber e)) es"
    using rs(1,2) len by simp
qed

lemma batch_results_initial:
  "map (\<lambda>r. (password r, originalLineNumber r)) (results (batch dg net es initial)) =
     map (\<lambda>e. (password e, originalLineNumber e)) (take (length (results (batch dg net es initial))) es)"
proof -
  obtain rs where rs: "results (batch dg net es initial) = results initial @ rs"
    "map (\<lambda>r. (password r, originalLineNumber r)) rs =
       map (\<lambda>e. (password e, originalLineNumber e)) (take (length rs) es)"
    using batch_results by blast
  have "results (batch dg net es initial) = rs"
    using rs(1) by (simp add: initial_def)
  then show ?thesis
    using rs(2) by simp
qed

lemma batch_results_prefix:
  "take (length (results s)) (results (batch dg net es s)) = results s"
  using batch_results [of dg net es s] by auto

lemma reached_length:
  assumes "\<not> awaiting (batch dg net (take i es) initial)" and "i \<le> length es"
  shows "length (results (batch dg net (take i es) initial)) = i"
  using batch_results_complete(1) [OF assms(1)] assms(2) by (simp add: initial_def)

lemma batch_result_nth:
  assumes "i < length es"
    and "\<not> awaiting (batch dg net (take i es) initial)"
    and "results (process_entry dg net (es ! i) (batch dg net (take i es) initial)) =
      results (batch dg net (take i es) initial) @ [r]"
  shows "results (batch dg net es initial) ! i = r \<and> i < length (results (batch dg net es initial))"
proof -
  let ?si = "batch dg net (take i es) initial"
  let ?sj = "process_entry dg net (es ! i) ?si"
  have len: "length (results ?si) = i"
    using assms(2) assms(1) by (intro reached_length) simp_all
  have sj: "batch dg net (take (Suc i) es) initial = ?sj"
    using assms(1,2) by (simp add: batch_take_Suc)
  have "batch dg net es initial = batch dg net (drop (Suc i) es) ?sj"
    using batch_split [of dg net es initial "Suc i"] sj by simp
  then have "take (length (results ?sj)) (results (batch dg net es initial)) = results ?sj"
    using batch_results_prefix [of ?sj dg net "drop (Suc i) es"] by simp
  then have t: "take (Suc i) (results (batch dg net es initial)) = results ?si @ [r]"
    using assms(3) len by simp
  have "length (take (Suc i) (results (batch dg net es initial))) = Suc i"
    using t len by simp
  then have i: "i < length (results (batch dg net es initial))"
    by simp
  have "results (batch dg net es initial) ! i = take (Suc i) (results (batch dg net es initial)) ! i"
    by simp
  also have "\<dots> = r"
    using len by (simp add: t nth_append)
  finally show ?thesis
    using i by simp
qed

lemma batch_stuck:
  assumes "i < length es"
    and "\<not> awaiting (batch dg net (take i es) initial)"
    and "fst (checkPassword dg net (password (es ! i)) (batch dg net (take i es) initial)) = Pending"
  shows "batch dg net es initial = process_entry dg net (es ! i) (batch dg net (take i es) initial)
    \<and> results (batch dg net es initial) = results (batch dg net (take i es) initial)
    \<and> length (results (batch dg net es initial)) = i
    \<and> awaiting (batch dg net es initial)"
proof -
  let ?si = "batch dg net (take i es) initial"
  let ?sj = "process_entry dg net (es ! i) ?si"
  have len: "length (results ?si) = i"
    using assms(2) assms(1) by (intro reached_length) simp_all
  have p: "results ?sj = results ?si \<and> awaiting ?sj"
    using assms(3) by (rule turn_pending)
  have sj: "batch dg net (take (Suc i) es) initial = ?sj"
    using assms(1,2) by (simp add: batch_take_Suc)
  have "batch dg net es initial = batch dg net (drop (Suc i) es) ?sj"
    using batch_split [of dg net es initial "Suc i"] sj by simp
  then have "batch dg net es initial = ?sj"
    using p by (simp add: batch_awaiting)
  then show ?thesis
    using p len by simp
qed

text \<open>
  Claim C5, amended. The records of a run are those of the first entries, in the order of
  the entries, each with the password and the line number of its entry. When the run ends
  there is exactly one record for each entry, and it ends whenever every request is
  answered, with a body or with an error. For an entry that the loop reaches: when its
  lookup resolves with a count, its record has that count and the status of that count;
  when its lookup is rejected, its record has the count \<open>-1\<close> and the error's message, and
  the loop goes on to the next entry; when its request is never answered, the run stays
  there for ever, with the records of the entries before and no other.
\<close>

theorem batch_one_result_per_entry:
  "map (\<lambda>r. (password r, originalLineNumber r)) (results (main dg net es)) =
     map (\<lambda>e. (password e, originalLineNumber e)) (take (length (results (main dg net es))) es)
   \<and> (\<not> awaiting (main dg net es) \<longrightarrow>
        map (\<lambda>r. (password r, originalLineNumber r)) (results (main dg net es)) =
          map (\<lambda>e. (password e, originalLineNumber e)) es
        \<and> length (results (main dg net es)) = length es)
   \<and> ((\<forall>n r. net n r \<noteq> NoAnswer) \<longrightarrow> \<not> awaiting (main dg net es))
   \<and> (\<forall>i c. i < length es \<and> \<not> awaiting (batch dg net (take i es) initial) \<and>
         fst (checkPassword dg net (password (es ! i)) (batch dg net (take i es) initial)) =
           Resolved c \<longrightarrow>
         i < length (results (main dg net es)) \<and>
         results (main dg net es) ! i = record_of (es ! i) c (status_of c) \<and>
         \<not> awaiting (batch dg net (take (Suc i) es) initial))
   \<and> (\<forall>i msg. i < length es \<and> \<not> awaiting (batch dg net (take i es) initial) \<and>
         fst (checkPassword dg net (password (es ! i)) (batch dg net (take i es) initial)) =
           Rejected msg \<longrightarrow>
         i < length (results (main dg net es)) \<and>
         results (main dg net es) ! i = record_of (es ! i) (Num (- 1)) (Error msg) \<and>
         \<not> awaiting (batch dg net (take (Suc i) es) initial))
   \<and> (\<forall>i. i < length es \<and> \<not> awaiting (batch dg net (take i es) initial) \<and>
         fst (checkPassword dg net (password (es ! i)) (batch dg net (take i es) initial)) =
           Pending \<longrightarrow>
         awaiting (main dg net es) \<and>
         results (main dg net es) = results (batch dg net (take i es) initial) \<and>
         length (results (main dg net es)) = i)"
proof -
  have a: "map (\<lambda>r. (password r, originalLineNumber r)) (results (main dg net es)) =
     map (\<lambda>e. (password e, originalLineNumber e)) (take (length (results (main dg net es))) es)"
    unfolding main_def by (rule batch_results_initial)
  have b: "\<not> awaiting (main dg net es) \<longrightarrow>
        map (\<lambda>r. (password r, originalLineNumber r)) (results (main dg net es)) =
          map (\<lambda>e. (password e, originalLineNumber e)) es
        \<and> length (results (main dg net es)) = length es"
  proof
    assume "\<not> awaiting (main dg net es)"
    then have n: "\<not> awaiting (batch dg net es initial)"
      by (simp add: main_def)
    show "map (\<lambda>r. (password r, originalLineNumber r)) (results (main dg net es)) =
          map (\<lambda>e. (password e, originalLineNumber e)) es
        \<and> length (results (main dg net es)) = length es"
      using batch_results_complete [OF n] by (simp add: main_def initial_def)
  qed
  have c: "(\<forall>n r. net n r \<noteq> NoAnswer) \<longrightarrow> \<not> awaiting (main dg net es)"
    unfolding main_def using answered_batch [of net initial dg es] awaiting_initial by blast
  have d: "i < length (results (main dg net es)) \<and>
         results (main dg net es) ! i = record_of (es ! i) c (status_of c) \<and>
         \<not> awaiting (batch dg net (take (Suc i) es) initial)"
    if "i < length es \<and> \<not> awaiting (batch dg net (take i es) initial) \<and>
         fst (checkPassword dg net (password (es ! i)) (batch dg net (take i es) initial)) =
           Resolved c" for i c
  proof -
    have i: "i < length es" and n: "\<not> awaiting (batch dg net (take i es) initial)"
      and r: "fst (checkPassword dg net (password (es ! i)) (batch dg net (take i es) initial)) =
           Resolved c"
      using that by simp_all
    note t = turn_resolved [OF r n]
    show ?thesis
      using batch_result_nth [OF i n t [THEN conjunct1]] t [THEN conjunct2] i n
      by (simp add: main_def batch_take_Suc)
  qed
  have e: "i < length (results (main dg net es)) \<and>
         results (main dg net es) ! i = record_of (es ! i) (Num (- 1)) (Error msg) \<and>
         \<not> awaiting (batch dg net (take (Suc i) es) initial)"
    if "i < length es \<and> \<not> awaiting (batch dg net (take i es) initial) \<and>
         fst (checkPassword dg net (password (es ! i)) (batch dg net (take i es) initial)) =
           Rejected msg" for i msg
  proof -
    have i: "i < length es" and n: "\<not> awaiting (batch dg net (take i es) initial)"
      and r: "fst (checkPassword dg net (password (es ! i)) (batch dg net (take i es) initial)) =
           Rejected msg"
      using that by simp_all
    note t = turn_rejected [OF r]
    show ?thesis
      using batch_result_nth [OF i n t [THEN conjunct1]] t [THEN conjunct2] i n
      by (simp add: main_def batch_take_Suc)
  qed
  have f: "awaiting (main dg net es) \<and>
         results (main dg net es) = results (batch dg net (take i es) initial) \<and>
         length (results (main dg net es)) = i"
    if "i < length es \<and> \<not> awaiting (batch dg net (take i es) initial) \<and>
         fst (checkPassword dg net (password (es ! i)) (batch dg net (take i es) initial)) =
           Pending" for i
  proof -
    have i: "i < length es" and n: "\<not> awaiting (batch dg net (take i es) initial)"
      and r: "fst (checkPassword dg net (password (es ! i)) (batch dg net (take i es) initial)) =
           Pending"
      using that by simp_all
    show ?thesis
      unfolding main_def using batch_stuck [OF i n r] by blast
  qed
  from d have d': "\<forall>i c. i < length es \<and> \<not> awaiting (batch dg net (take i es) initial) \<and>
         fst (checkPassword dg net (password (es ! i)) (batch dg net (take i es) initial)) =
           Resolved c \<longrightarrow>
         i < length (results (main dg net es)) \<and>
         results (main dg net es) ! i = record_of (es ! i) c (status_of c) \<and>
         \<not> awaiting (batch dg net (take (Suc i) es) initial)"
    by blast
  from e have e': "\<forall>i msg. i < length es \<and> \<not> awaiting (batch dg net (take i es) initial) \<and>
         fst (checkPassword dg net (password (es ! i)) (batch dg net (take i es) initial)) =
           Rejected msg \<longrightarrow>
         i < length (results (main dg net es)) \<and>
         results (main dg net es) ! i = record_of (es ! i) (Num (- 1)) (Error msg) \<and>
         \<not> awaiting (batch dg net (take (Suc i) es) initial)"
    by blast
  from f have f': "\<forall>i. i < length es \<and> \<not> awaiting (batch dg net (take i es) initial) \<and>
         fst (checkPassword dg net (password (es ! i)) (batch dg net (take i es) initial)) =
           Pending \<longrightarrow>
         awaiting (main dg net es) \<and>
         results (main dg net es) = results (batch dg net (take i es) initial) \<and>
         length (results (main dg net es)) = i"
    by blast
  from a b c d' e' f' show ?thesis
    by (intro conjI)
qed

subsection \<open>The cache and the counter\<close>

lemma request_options_inj: "request_options k = request_options k' \<Longrightarrow> k = k'"
  by (simp add: request_options_def)

lemma cache_step:
  assumes "fetched (trace s) = map request_options (map fst (hashCache s))"
    and "map_size (hashCache s) = checkedCount s"
    and "distinct (map fst (hashCache s))"
  shows "fetched (trace (process_entry dg net e s)) =
      map request_options (map fst (hashCache (process_entry dg net e s)))
    \<and> map_size (hashCache (process_entry dg net e s)) = checkedCount (process_entry dg net e s)
    \<and> distinct (map fst (hashCache (process_entry dg net e s)))"
proof (cases rule: process_entry_cases [where s = s and dg = dg and e = e and net = net])
  case (hit d)
  then show ?thesis using assms by (simp add: process_entry_hit)
next
  case (error msg)
  then show ?thesis using assms by (simp add: process_entry_error fetched_append)
next
  case (data body)
  then show ?thesis
    using assms
    by (simp add: process_entry_data fetched_append map_set_absent map_size_def map_has_keys)
next
  case silent
  then show ?thesis using assms by (simp add: process_entry_silent fetched_append)
qed

lemma cache_batch:
  assumes "fetched (trace s) = map request_options (map fst (hashCache s))"
    and "map_size (hashCache s) = checkedCount s"
    and "distinct (map fst (hashCache s))"
  shows "fetched (trace (batch dg net es s)) =
      map request_options (map fst (hashCache (batch dg net es s)))
    \<and> map_size (hashCache (batch dg net es s)) = checkedCount (batch dg net es s)
    \<and> distinct (map fst (hashCache (batch dg net es s)))"
  using assms
proof (induction es arbitrary: s)
  case Nil
  then show ?case by simp
next
  case (Cons e es)
  show ?case
  proof (cases "awaiting s")
    case True
    then show ?thesis using Cons.prems by simp
  next
    case False
    then show ?thesis
      using Cons.IH [of "process_entry dg net e s"] cache_step [OF Cons.prems, of dg net e]
      by simp
  qed
qed

lemma cache_initial:
  "fetched (trace (batch dg net es initial)) =
      map request_options (map fst (hashCache (batch dg net es initial)))
    \<and> map_size (hashCache (batch dg net es initial)) = checkedCount (batch dg net es initial)
    \<and> distinct (map fst (hashCache (batch dg net es initial)))"
  by (rule cache_batch) (simp_all add: initial_def map_size_def)

lemma distinct_fetched_initial: "distinct (fetched (trace (batch dg net es initial)))"
proof -
  have "distinct (map request_options ks)" if "distinct ks" for ks
    using that by (induction ks) (auto dest: request_options_inj)
  then show ?thesis
    using cache_initial [of dg net es] by metis
qed

lemma counters_step:
  "map_size (hashCache (process_entry dg net e s)) + checkedCount s =
   map_size (hashCache s) + checkedCount (process_entry dg net e s)"
proof (cases rule: process_entry_cases [where s = s and dg = dg and e = e and net = net])
  case (hit d)
  then show ?thesis by (simp add: process_entry_hit)
next
  case (error msg)
  then show ?thesis by (simp add: process_entry_error)
next
  case (data body)
  then show ?thesis
    by (simp add: process_entry_data map_set_absent map_size_def)
next
  case silent
  then show ?thesis by (simp add: process_entry_silent)
qed

text \<open>
  Claim C10. After any number of turns of the loop of a run, the cache holds as many
  prefixes as \<open>checkedCount\<close> says, and that is the number of remote calls answered with a
  body, no two of them for the same prefix; one turn adds as much to the one as to the other.
\<close>

theorem cache_size_is_checkedCount:
  "(\<forall>i \<le> length es.
      map_size (hashCache (batch dg net (take i es) initial)) =
        checkedCount (batch dg net (take i es) initial)
      \<and> checkedCount (batch dg net (take i es) initial) =
        length (fetched (trace (batch dg net (take i es) initial)))
      \<and> distinct (fetched (trace (batch dg net (take i es) initial)))
      \<and> fetched (trace (batch dg net (take i es) initial)) =
        map request_options (map fst (hashCache (batch dg net (take i es) initial))))
   \<and> map_size (hashCache (process_entry dg net e s)) + checkedCount s =
       map_size (hashCache s) + checkedCount (process_entry dg net e s)
   \<and> checkedCount (main dg net es) = card (set (fetched (trace (main dg net es))))"
proof -
  have a: "map_size (hashCache (batch dg net xs initial)) = checkedCount (batch dg net xs initial)
      \<and> checkedCount (batch dg net xs initial) = length (fetched (trace (batch dg net xs initial)))
      \<and> distinct (fetched (trace (batch dg net xs initial)))
      \<and> fetched (trace (batch dg net xs initial)) =
        map request_options (map fst (hashCache (batch dg net xs initial)))" for xs
    using cache_initial [of dg net xs] distinct_fetched_initial [of dg net xs]
    by (simp add: map_size_def)
  have "checkedCount (main dg net es) = card (set (fetched (trace (main dg net es))))"
    unfolding main_def using a [of es] by (metis distinct_card)
  with a counters_step show ?thesis by blast
qed

subsection \<open>What is cached stays cached\<close>

lemma cache_mono_step:
  "map_has (hashCache s) k \<Longrightarrow> map_has (hashCache (process_entry dg net e s)) k"
proof (cases rule: process_entry_cases [where s = s and dg = dg and e = e and net = net])
  case (hit d)
  then show "map_has (hashCache s) k \<Longrightarrow> ?thesis" by (simp add: process_entry_hit)
next
  case (error msg)
  then show "map_has (hashCache s) k \<Longrightarrow> ?thesis" by (simp add: process_entry_error)
next
  case (data body)
  then show "map_has (hashCache s) k \<Longrightarrow> ?thesis"
    by (simp add: process_entry_data map_has_set)
next
  case silent
  then show "map_has (hashCache s) k \<Longrightarrow> ?thesis"
    by (simp add: process_entry_silent)
qed

lemma cache_mono_batch:
  "map_has (hashCache s) k \<Longrightarrow> map_has (hashCache (batch dg net es s)) k"
  by (induction es arbitrary: s) (simp_all add: cache_mono_step)

lemma success_caches:
  assumes "fst (checkPassword dg net (password e) s) = Resolved c"
  shows "map_has (hashCache (process_entry dg net e s)) (prefix_of dg (password e))"
proof (cases rule: process_entry_cases [where s = s and dg = dg and e = e and net = net])
  case (hit d)
  then show ?thesis by (simp add: process_entry_hit map_has_get)
next
  case (error msg)
  then show ?thesis
    using assms checkPassword_error [where net = net, OF error] by simp
next
  case (data body)
  then show ?thesis by (simp add: process_entry_data map_has_set)
next
  case silent
  then show ?thesis
    using assms checkPassword_silent [where net = net, OF silent] by simp
qed

lemma hit_changes_nothing_outside:
  assumes "map_has (hashCache s) (prefix_of dg (password e))"
  shows "trace (process_entry dg net e s) = trace s
    \<and> hashCache (process_entry dg net e s) = hashCache s
    \<and> checkedCount (process_entry dg net e s) = checkedCount s
    \<and> cachedCount (process_entry dg net e s) = cachedCount s + 1"
proof -
  obtain d where "map_get (hashCache s) (prefix_of dg (password e)) = Some d"
    using assms by (auto simp: map_has_get)
  then show ?thesis by (simp add: process_entry_hit)
qed

text \<open>
  Claim C1, amended. Take two entries of a run whose digests share their prefix, the lookup
  of the one processed first succeeding. Then the turn of the other sends no request:
  neither the events nor the cache change in it. Where the loop does take the turn of the
  first (it is not waiting for an answer when it comes to it), the prefix is in the cache
  when the loop comes to the other, whose lookup is answered from there. Over a whole run no
  request is answered with a body twice. (A lookup whose remote call failed leaves the
  prefix absent, and the next entry with that prefix asks again.)
\<close>

theorem fetched_prefix_not_queried_again:
  assumes "i < j" and "j < length es"
    and "prefix_of dg (password (es ! i)) = prefix_of dg (password (es ! j))"
    and "fst (checkPassword dg net (password (es ! i)) (batch dg net (take i es) s0)) = Resolved c"
  shows "trace (batch dg net (take (Suc j) es) s0) = trace (batch dg net (take j es) s0)
    \<and> hashCache (batch dg net (take (Suc j) es) s0) = hashCache (batch dg net (take j es) s0)
    \<and> (\<not> awaiting (batch dg net (take i es) s0) \<longrightarrow>
        (\<exists>d. map_get (hashCache (batch dg net (take j es) s0))
            (prefix_of dg (password (es ! j))) = Some d
          \<and> checkPassword dg net (password (es ! j)) (batch dg net (take j es) s0) =
             (Resolved (find_count d (suffix_of dg (password (es ! j)))),
              batch dg net (take j es) s0)))
    \<and> distinct (fetched (trace (main dg net es)))"
proof -
  let ?k = "prefix_of dg (password (es ! j))"
  let ?si = "batch dg net (take i es) s0"
  let ?sj = "batch dg net (take j es) s0"
  have i: "i < length es" using assms(1,2) by simp
  have "take i (take j es) = take i es"
    using assms(1) by (simp add: min_def)
  then have split_i: "?sj = batch dg net (drop i (take j es)) ?si"
    using batch_split [of dg net "take j es" s0 i] by simp
  have "take (Suc i) (take j es) = take (Suc i) es"
    using assms(1) by (simp add: min_def)
  then have split_Suc: "?sj = batch dg net (drop (Suc i) (take j es)) (batch dg net (take (Suc i) es) s0)"
    using batch_split [of dg net "take j es" s0 "Suc i"] by simp
  have step: "batch dg net (take (Suc j) es) s0 =
      (if awaiting ?sj then ?sj else process_entry dg net (es ! j) ?sj)"
    using assms(2) by (rule batch_take_Suc)
  have cached: "map_has (hashCache ?sj) ?k" if n: "\<not> awaiting ?si"
  proof -
    have "map_has (hashCache (process_entry dg net (es ! i) ?si)) ?k"
      using success_caches [OF assms(4)] assms(3) by simp
    then have "map_has (hashCache (batch dg net (take (Suc i) es) s0)) ?k"
      using i n by (simp add: batch_take_Suc)
    then show ?thesis
      using split_Suc by (simp add: cache_mono_batch)
  qed
  have same: "trace (batch dg net (take (Suc j) es) s0) = trace ?sj
      \<and> hashCache (batch dg net (take (Suc j) es) s0) = hashCache ?sj"
  proof (cases "awaiting ?si")
    case True
    then have "?sj = ?si"
      using split_i by (simp add: batch_awaiting)
    then have "awaiting ?sj"
      using True by simp
    then show ?thesis
      using step by simp
  next
    case False
    then show ?thesis
      using hit_changes_nothing_outside [OF cached, of net] step by simp
  qed
  have hit: "\<not> awaiting ?si \<longrightarrow>
        (\<exists>d. map_get (hashCache ?sj) ?k = Some d
          \<and> checkPassword dg net (password (es ! j)) ?sj =
             (Resolved (find_count d (suffix_of dg (password (es ! j)))), ?sj))"
  proof
    assume "\<not> awaiting ?si"
    then have "map_has (hashCache ?sj) ?k"
      by (rule cached)
    then obtain d where d: "map_get (hashCache ?sj) ?k = Some d"
      by (auto simp: map_has_get)
    have "checkPassword dg net (password (es ! j)) ?sj =
        (Resolved (find_count d (suffix_of dg (password (es ! j)))), ?sj)"
      using d by (rule checkPassword_hit)
    then show "\<exists>d. map_get (hashCache ?sj) ?k = Some d
          \<and> checkPassword dg net (password (es ! j)) ?sj =
             (Resolved (find_count d (suffix_of dg (password (es ! j)))), ?sj)"
      using d by blast
  qed
  have "distinct (fetched (trace (main dg net es)))"
    by (simp add: main_def distinct_fetched_initial)
  then show ?thesis
    using same hit by blast
qed

lemma requests_checkPassword:
  "requests (trace (snd (checkPassword dg net pw s))) =
     requests (trace s) @
     (if map_has (hashCache s) (prefix_of dg pw) then []
      else [request_options (prefix_of dg pw)])"
proof (cases "map_has (hashCache s) (prefix_of dg pw)")
  case True
  then obtain d where "map_get (hashCache s) (prefix_of dg pw) = Some d"
    by (auto simp: map_has_get)
  then show ?thesis using True by (simp add: checkPassword_hit)
next
  case False
  show ?thesis
  proof (cases "net (length (requests (trace s))) (request_options (prefix_of dg pw))")
    case (NetError m)
    show ?thesis
      using False
      by (simp add: checkPassword_error [where net = net, OF False NetError] requests_append)
  next
    case (Data body)
    show ?thesis
      using False
      by (simp add: checkPassword_data [where net = net, OF False Data] requests_append)
  next
    case NoAnswer
    show ?thesis
      using False
      by (simp add: checkPassword_silent [where net = net, OF False NoAnswer] requests_append)
  qed
qed

text \<open>
  Claim C3, amended. Take a lookup whose prefix is not in the cache, and a password \<open>pw\<close>
  with the same prefix. When the remote call fails (the request's \<open>error\<close> event), the
  lookup is rejected and the turn pushes one record, for its own entry, with the count \<open>-1\<close>
  and the error's message; the cache is as it was, so the prefix is still absent, and the
  next lookup of \<open>pw\<close> sends the request again. When a body comes back, whatever it is, the
  lookup resolves with the count found in what the parser makes of the body, and that is
  stored under the prefix: the next lookup of \<open>pw\<close> sends no request. When nothing comes
  back, the lookup stays pending: no record is pushed, nothing is stored, and the loop
  takes no further turn.
\<close>

theorem failed_lookup_not_cached:
  assumes "\<not> map_has (hashCache s) (prefix_of dg (password e))"
    and "prefix_of dg pw = prefix_of dg (password e)"
  shows "(\<forall>msg. net (length (requests (trace s))) (request_options (prefix_of dg (password e))) =
            NetError msg \<longrightarrow>
          fst (checkPassword dg net (password e) s) = Rejected msg
          \<and> results (process_entry dg net e s) = results s @ [record_of e (Num (- 1)) (Error msg)]
          \<and> hashCache (process_entry dg net e s) = hashCache s
          \<and> \<not> map_has (hashCache (process_entry dg net e s)) (prefix_of dg pw)
          \<and> \<not> awaiting (process_entry dg net e s)
          \<and> requests (trace (snd (checkPassword dg net' pw (process_entry dg net e s)))) =
              requests (trace (process_entry dg net e s)) @ [request_options (prefix_of dg pw)])
    \<and> (\<forall>body. net (length (requests (trace s))) (request_options (prefix_of dg (password e))) =
            Data body \<longrightarrow>
          fst (checkPassword dg net (password e) s) =
            Resolved (find_count (parse_response body) (suffix_of dg (password e)))
          \<and> results (process_entry dg net e s) =
              results s @ [record_of e (find_count (parse_response body) (suffix_of dg (password e)))
                (status_of (find_count (parse_response body) (suffix_of dg (password e))))]
          \<and> hashCache (process_entry dg net e s) =
              map_set (hashCache s) (prefix_of dg (password e)) (parse_response body)
          \<and> map_get (hashCache (process_entry dg net e s)) (prefix_of dg pw) =
              Some (parse_response body)
          \<and> \<not> awaiting (process_entry dg net e s)
          \<and> checkPassword dg net' pw (process_entry dg net e s) =
              (Resolved (find_count (parse_response body) (suffix_of dg pw)),
               process_entry dg net e s))
    \<and> (net (length (requests (trace s))) (request_options (prefix_of dg (password e))) =
            NoAnswer \<longrightarrow>
          fst (checkPassword dg net (password e) s) = Pending
          \<and> process_entry dg net e s =
              s\<lparr>trace := trace s @ [Request (request_options (prefix_of dg (password e)))]\<rparr>
          \<and> results (process_entry dg net e s) = results s
          \<and> hashCache (process_entry dg net e s) = hashCache s
          \<and> awaiting (process_entry dg net e s)
          \<and> batch dg net' es (process_entry dg net e s) = process_entry dg net e s)"
proof -
  let ?s' = "process_entry dg net e s"
  let ?r = "request_options (prefix_of dg (password e))"
  have 1: "fst (checkPassword dg net (password e) s) = Rejected msg
          \<and> results ?s' = results s @ [record_of e (Num (- 1)) (Error msg)]
          \<and> hashCache ?s' = hashCache s
          \<and> \<not> map_has (hashCache ?s') (prefix_of dg pw)
          \<and> \<not> awaiting ?s'
          \<and> requests (trace (snd (checkPassword dg net' pw ?s'))) =
              requests (trace ?s') @ [request_options (prefix_of dg pw)]"
    if err: "net (length (requests (trace s))) ?r = NetError msg" for msg
  proof -
    have s': "?s' = s\<lparr>trace := trace s @ [Request ?r, Response ?r (NetError msg)],
        results := results s @ [record_of e (Num (- 1)) (Error msg)]\<rparr>"
      using assms(1) err by (rule process_entry_error)
    have absent: "\<not> map_has (hashCache ?s') (prefix_of dg pw)"
      using assms by (simp add: s')
    have "requests (trace (snd (checkPassword dg net' pw ?s'))) =
        requests (trace ?s') @ [request_options (prefix_of dg pw)]"
      using absent by (simp add: requests_checkPassword)
    moreover have "\<not> awaiting ?s'"
      using assms(1) err by (rule awaiting_error)
    moreover have "fst (checkPassword dg net (password e) s) = Rejected msg"
      by (simp add: checkPassword_error [where net = net, OF assms(1) err])
    moreover have "results ?s' = results s @ [record_of e (Num (- 1)) (Error msg)]"
      and "hashCache ?s' = hashCache s"
      by (simp_all add: s')
    ultimately show ?thesis
      using absent by (intro conjI)
  qed
  have 2: "fst (checkPassword dg net (password e) s) =
            Resolved (find_count (parse_response body) (suffix_of dg (password e)))
          \<and> results ?s' =
              results s @ [record_of e (find_count (parse_response body) (suffix_of dg (password e)))
                (status_of (find_count (parse_response body) (suffix_of dg (password e))))]
          \<and> hashCache ?s' = map_set (hashCache s) (prefix_of dg (password e)) (parse_response body)
          \<and> map_get (hashCache ?s') (prefix_of dg pw) = Some (parse_response body)
          \<and> \<not> awaiting ?s'
          \<and> checkPassword dg net' pw ?s' =
              (Resolved (find_count (parse_response body) (suffix_of dg pw)), ?s')"
    if data: "net (length (requests (trace s))) ?r = Data body" for body
  proof -
    note s' = process_entry_data [where net = net, OF assms(1) data]
    have a: "fst (checkPassword dg net (password e) s) =
        Resolved (find_count (parse_response body) (suffix_of dg (password e)))"
      by (simp add: checkPassword_data [where net = net, OF assms(1) data])
    have b: "results ?s' =
        results s @ [record_of e (find_count (parse_response body) (suffix_of dg (password e)))
          (status_of (find_count (parse_response body) (suffix_of dg (password e))))]"
      by (simp add: s')
    have c: "hashCache ?s' = map_set (hashCache s) (prefix_of dg (password e)) (parse_response body)"
      by (simp add: s')
    have d: "map_get (hashCache ?s') (prefix_of dg pw) = Some (parse_response body)"
      using assms(2) by (simp add: c map_get_set)
    have f: "\<not> awaiting ?s'"
      using assms(1) data by (rule awaiting_data)
    have g: "checkPassword dg net' pw ?s' =
        (Resolved (find_count (parse_response body) (suffix_of dg pw)), ?s')"
      using d by (rule checkPassword_hit)
    from a b c d f g show ?thesis
      by (intro conjI)
  qed
  have 3: "fst (checkPassword dg net (password e) s) = Pending
          \<and> ?s' = s\<lparr>trace := trace s @ [Request ?r]\<rparr>
          \<and> results ?s' = results s
          \<and> hashCache ?s' = hashCache s
          \<and> awaiting ?s'
          \<and> batch dg net' es ?s' = ?s'"
    if silent: "net (length (requests (trace s))) ?r = NoAnswer"
  proof -
    note s' = process_entry_silent [where net = net, OF assms(1) silent]
    have a: "fst (checkPassword dg net (password e) s) = Pending"
      by (simp add: checkPassword_silent [where net = net, OF assms(1) silent])
    have b: "results ?s' = results s" and c: "hashCache ?s' = hashCache s"
      by (simp_all add: s')
    have d: "awaiting ?s'"
      using assms(1) silent by (rule awaiting_silent)
    then have f: "batch dg net' es ?s' = ?s'"
      by (rule batch_awaiting)
    from a s' b c d f show ?thesis
      by (intro conjI)
  qed
  show ?thesis
  proof (rule conjI [OF _ conjI])
    show "\<forall>msg. net (length (requests (trace s))) ?r = NetError msg \<longrightarrow>
          fst (checkPassword dg net (password e) s) = Rejected msg
          \<and> results ?s' = results s @ [record_of e (Num (- 1)) (Error msg)]
          \<and> hashCache ?s' = hashCache s
          \<and> \<not> map_has (hashCache ?s') (prefix_of dg pw)
          \<and> \<not> awaiting ?s'
          \<and> requests (trace (snd (checkPassword dg net' pw ?s'))) =
              requests (trace ?s') @ [request_options (prefix_of dg pw)]"
      by (intro allI impI) (rule 1)
    show "\<forall>body. net (length (requests (trace s))) ?r = Data body \<longrightarrow>
          fst (checkPassword dg net (password e) s) =
            Resolved (find_count (parse_response body) (suffix_of dg (password e)))
          \<and> results ?s' =
              results s @ [record_of e (find_count (parse_response body) (suffix_of dg (password e)))
                (status_of (find_count (parse_response body) (suffix_of dg (password e))))]
          \<and> hashCache ?s' = map_set (hashCache s) (prefix_of dg (password e)) (parse_response body)
          \<and> map_get (hashCache ?s') (prefix_of dg pw) = Some (parse_response body)
          \<and> \<not> awaiting ?s'
          \<and> checkPassword dg net' pw ?s' =
              (Resolved (find_count (parse_response body) (suffix_of dg pw)), ?s')"
      by (intro allI impI) (rule 2)
    show "net (length (requests (trace s))) ?r = NoAnswer \<longrightarrow>
          fst (checkPassword dg net (password e) s) = Pending
          \<and> ?s' = s\<lparr>trace := trace s @ [Request ?r]\<rparr>
          \<and> results ?s' = results s
          \<and> hashCache ?s' = hashCache s
          \<and> awaiting ?s'
          \<and> batch dg net' es ?s' = ?s'"
      by (intro impI) (rule 3)
  qed
qed

text \<open>
  Claim C8, amended. A turn of the loop pauses, for \<open>API_RATE_LIMIT_DELAY_MS = 100\<close>
  milliseconds, exactly when the prefix of its entry was absent from the cache before the
  lookup and the remote call was answered with a body; the pause is then the last event of
  the turn, after the response. A turn answered from the cache does not pause, and neither
  does a turn whose remote call failed.
\<close>

theorem delay_after_successful_fetch:
  "delays (trace (process_entry dg net e s)) =
     delays (trace s) @
     (if \<not> map_has (hashCache s) (prefix_of dg (password e)) \<and>
         (\<exists>body. net (length (requests (trace s)))
            (request_options (prefix_of dg (password e))) = Data body)
      then [API_RATE_LIMIT_DELAY_MS] else [])
   \<and> (\<forall>body. \<not> map_has (hashCache s) (prefix_of dg (password e)) \<and>
         net (length (requests (trace s))) (request_options (prefix_of dg (password e))) =
           Data body \<longrightarrow>
         trace (process_entry dg net e s) =
           trace s @ [Request (request_options (prefix_of dg (password e))),
                      Response (request_options (prefix_of dg (password e))) (Data body),
                      Delay 100])
   \<and> (map_has (hashCache s) (prefix_of dg (password e)) \<longrightarrow>
         trace (process_entry dg net e s) = trace s)"
proof (cases rule: process_entry_cases [where s = s and dg = dg and e = e and net = net])
  case (hit d)
  then show ?thesis by (simp add: process_entry_hit map_has_get)
next
  case (error msg)
  then show ?thesis by (simp add: process_entry_error delays_append)
next
  case (data body)
  then show ?thesis
    by (simp add: process_entry_data delays_append API_RATE_LIMIT_DELAY_MS_def)
next
  case silent
  then show ?thesis by (simp add: process_entry_silent delays_append)
qed

lemma find_count_absent: "\<forall>x \<in> set d. suffix x \<noteq> sfx \<Longrightarrow> find_count d sfx = Num 0"
proof -
  assume "\<forall>x \<in> set d. suffix x \<noteq> sfx"
  then have "find (\<lambda>x. suffix x = sfx) d = None"
    by (simp add: find_None_iff)
  then show ?thesis by (simp add: find_count_def)
qed

text \<open>
  Claim C6. When the suffix set fetched for the prefix of a password's digest (the cached
  one, or the one parsed from the body just received) has no entry with the digest's suffix,
  the lookup resolves with the count \<open>0\<close>, and after it the set is in the cache under the
  prefix (a set just received was stored there, with the request and its answer as the only
  new events). Looked up again, whatever the network would answer, the password gets \<open>0\<close>
  again from the cache: no request is sent, and the state, with its events, stays as it is.
\<close>

theorem absent_suffix_is_safe:
  assumes "map_get (hashCache s) (prefix_of dg pw) = Some d
      \<or> (\<not> map_has (hashCache s) (prefix_of dg pw)
         \<and> net (length (requests (trace s))) (request_options (prefix_of dg pw)) = Data body
         \<and> d = parse_response body)"
    and "\<forall>x \<in> set d. suffix x \<noteq> suffix_of dg pw"
  shows "fst (checkPassword dg net pw s) = Resolved (Num 0)
    \<and> checkPassword dg net' pw (snd (checkPassword dg net pw s)) =
        (Resolved (Num 0), snd (checkPassword dg net pw s))
    \<and> map_get (hashCache (snd (checkPassword dg net pw s))) (prefix_of dg pw) = Some d
    \<and> map_has (hashCache (snd (checkPassword dg net pw s))) (prefix_of dg pw)
    \<and> requests (trace (snd (checkPassword dg net' pw (snd (checkPassword dg net pw s))))) =
        requests (trace (snd (checkPassword dg net pw s)))
    \<and> snd (checkPassword dg net pw s) =
        (if map_has (hashCache s) (prefix_of dg pw) then s
         else s\<lparr>trace := trace s @
                  [Request (request_options (prefix_of dg pw)),
                   Response (request_options (prefix_of dg pw)) (Data body)],
                hashCache := map_set (hashCache s) (prefix_of dg pw) d\<rparr>)"
proof -
  let ?s' = "snd (checkPassword dg net pw s)"
  have zero: "find_count d (suffix_of dg pw) = Num 0"
    using assms(2) by (rule find_count_absent)
  have first: "checkPassword dg net pw s = (Resolved (Num 0),
        if map_has (hashCache s) (prefix_of dg pw) then s
         else s\<lparr>trace := trace s @
                  [Request (request_options (prefix_of dg pw)),
                   Response (request_options (prefix_of dg pw)) (Data body)],
                hashCache := map_set (hashCache s) (prefix_of dg pw) d\<rparr>)"
    using assms(1)
  proof
    assume hit: "map_get (hashCache s) (prefix_of dg pw) = Some d"
    then have "map_has (hashCache s) (prefix_of dg pw)"
      by (simp add: map_has_get)
    then show ?thesis
      using zero by (simp add: checkPassword_hit [OF hit])
  next
    assume "\<not> map_has (hashCache s) (prefix_of dg pw)
         \<and> net (length (requests (trace s))) (request_options (prefix_of dg pw)) = Data body
         \<and> d = parse_response body"
    then have miss: "\<not> map_has (hashCache s) (prefix_of dg pw)"
      and data: "net (length (requests (trace s))) (request_options (prefix_of dg pw)) = Data body"
      and d: "d = parse_response body"
      by simp_all
    show ?thesis
      using zero miss checkPassword_data [where net = net, OF miss data]
      by (simp add: d)
  qed
  have stored: "map_get (hashCache ?s') (prefix_of dg pw) = Some d"
    using assms(1)
  proof
    assume hit: "map_get (hashCache s) (prefix_of dg pw) = Some d"
    then have "map_has (hashCache s) (prefix_of dg pw)"
      by (simp add: map_has_get)
    then show ?thesis
      using hit by (simp add: first)
  next
    assume "\<not> map_has (hashCache s) (prefix_of dg pw)
         \<and> net (length (requests (trace s))) (request_options (prefix_of dg pw)) = Data body
         \<and> d = parse_response body"
    then show ?thesis
      by (simp add: first map_get_set)
  qed
  then have has: "map_has (hashCache ?s') (prefix_of dg pw)"
    by (simp add: map_has_get)
  have again: "checkPassword dg net' pw ?s' = (Resolved (Num 0), ?s')"
    using checkPassword_hit [OF stored, of net'] zero by simp
  have quiet: "requests (trace (snd (checkPassword dg net' pw ?s'))) = requests (trace ?s')"
    by (simp add: again)
  have state: "?s' =
        (if map_has (hashCache s) (prefix_of dg pw) then s
         else s\<lparr>trace := trace s @
                  [Request (request_options (prefix_of dg pw)),
                   Response (request_options (prefix_of dg pw)) (Data body)],
                hashCache := map_set (hashCache s) (prefix_of dg pw) d\<rparr>)"
    by (simp add: first)
  have res: "fst (checkPassword dg net pw s) = Resolved (Num 0)"
    by (simp add: first)
  from res again stored has quiet state show ?thesis
    by (intro conjI)
qed

lemma str_includes_length: "str_includes s sub \<Longrightarrow> length sub \<le> length s"
proof (induction s)
  case Nil
  then show ?case by simp
next
  case (Cons c cs)
  show ?case
  proof (cases "startsWith (c # cs) sub")
    case True
    then have "length sub = min (length (c # cs)) (length sub)"
      by (metis startsWith_def length_take)
    then show ?thesis by simp
  next
    case False
    then have "length sub \<le> length cs"
      using Cons by simp
    then show ?thesis by simp
  qed
qed

lemma request_strings_options:
  "request_strings (request_options k) =
     [''api.pwnedpasswords.com'', ''/range/'' @ k, ''GET'',
      ''User-Agent'', ''Password-Checker-Script'', ''Add-Padding'', ''true'']"
  by (simp add: request_strings_def request_options_def)

text \<open>
  Claim C2. The requests a lookup sends are determined by the cache and the first five
  characters of the password's digest: from the same state, two passwords whose digests
  share that prefix send the same requests, whatever the network answers to either. The
  one request a lookup can send has a fixed host, method and headers and the path
  \<open>/range/\<close> followed by the prefix, and no body; for a digest of 40 characters, its
  35-character suffix occurs in none of the request's strings.
\<close>

theorem request_depends_on_prefix_only:
  assumes "prefix_of dg pw = prefix_of dg pw'"
    and "length (sha1 dg pw) = 40"
  shows "requests (trace (snd (checkPassword dg net pw s))) =
      requests (trace (snd (checkPassword dg net' pw' s)))
    \<and> requests (trace (snd (checkPassword dg net pw s))) =
        requests (trace s) @
        (if map_has (hashCache s) (prefix_of dg pw) then []
         else [request_options (prefix_of dg pw)])
    \<and> request_strings (request_options (prefix_of dg pw)) =
        [''api.pwnedpasswords.com'', ''/range/'' @ take 5 (sha1 dg pw), ''GET'',
         ''User-Agent'', ''Password-Checker-Script'', ''Add-Padding'', ''true'']
    \<and> (\<forall>str \<in> set (request_strings (request_options (prefix_of dg pw))).
          \<not> str_includes str (suffix_of dg pw))"
proof -
  have k: "prefix_of dg pw = take 5 (sha1 dg pw)"
    by (simp add: prefix_of_def substring_def HASH_PREFIX_LENGTH_def)
  have len: "length (suffix_of dg pw) = 35"
    using assms(2) by (simp add: suffix_of_def substring_from_def HASH_PREFIX_LENGTH_def)
  have "\<not> str_includes str (suffix_of dg pw)"
    if "str \<in> set (request_strings (request_options (prefix_of dg pw)))" for str
  proof
    assume "str_includes str (suffix_of dg pw)"
    then have "35 \<le> length str"
      using str_includes_length len by fastforce
    moreover have "length str < 35"
      using that assms(2) by (auto simp: request_strings_options k)
    ultimately show False by simp
  qed
  then show ?thesis
    using assms(1) by (simp add: requests_checkPassword request_strings_options k)
qed

subsection \<open>Splitting\<close>

lemma split_from_plain:
  assumes "sep \<noteq> []" and "hd sep \<notin> set l"
  shows "split_from sep acc l = [rev acc @ l]"
  using assms(2)
proof (induction l arbitrary: acc)
  case Nil
  show ?case by simp
next
  case (Cons c cs)
  have "\<not> startsWith (c # cs) sep"
    using assms(1) Cons.prems by (cases sep) (auto simp: startsWith_def)
  then show ?case using Cons by simp
qed

lemma split_from_line:
  assumes "sep \<noteq> []" and "hd sep \<notin> set l"
  shows "split_from sep acc (l @ sep @ rest) = (rev acc @ l) # split_from sep [] rest"
  using assms(2)
proof (induction l arbitrary: acc)
  case Nil
  obtain c cs where sep: "sep = c # cs"
    using assms(1) by (cases sep) auto
  have "startsWith (sep @ rest) sep"
    by (simp add: startsWith_def)
  then show ?case
    by (simp add: sep)
next
  case (Cons c cs)
  have "\<not> startsWith (c # cs @ sep @ rest) sep"
    using assms(1) Cons.prems by (cases sep) (auto simp: startsWith_def)
  then show ?case using Cons by simp
qed

subsection \<open>Decimal numerals\<close>

lemma dec_nonempty: "dec n \<noteq> []"
  by (subst dec.simps) simp

lemma digits_val_snoc: "digits_val (ds @ [c]) = 10 * digits_val ds + digit_val c"
  by (simp add: digits_val_def)

lemma digits_val_dec: "digits_val (dec n) = n"
proof (induction n rule: dec.induct)
  case (1 n)
  show ?case
  proof (cases "n < 10")
    case True
    then show ?thesis
      by (simp add: dec.simps [of n] digits_val_def digit_val_digit_char)
  next
    case False
    then have "digits_val (dec n) = 10 * digits_val (dec (n div 10)) + digit_val (digit_char (n mod 10))"
      by (simp add: dec.simps [of n] digits_val_snoc)
    also have "\<dots> = 10 * (n div 10) + n mod 10"
      using False "1.IH" by (simp add: digit_val_digit_char)
    finally show ?thesis by simp
  qed
qed

lemma is_digit_not_ws: "is_digit c \<Longrightarrow> \<not> is_ws c"
  by (auto simp: is_digit_def is_ws_def)

lemma is_digit_not_sign: "is_digit c \<Longrightarrow> c \<noteq> CHR ''-'' \<and> c \<noteq> CHR ''+'' \<and> c \<noteq> CHR '':''"
  by (auto simp: is_digit_def)

lemma parseInt_dec: "parseInt (dec n) = to_number (int n)"
proof -
  obtain c cs where d: "dec n = c # cs"
    using dec_nonempty [of n] by (cases "dec n") auto
  have dig: "\<forall>x \<in> set (dec n). is_digit x"
    using dec_digits by blast
  then have c: "is_digit c" by (simp add: d)
  have 1: "dropWhile is_ws (dec n) = dec n"
    using c by (simp add: d is_digit_not_ws)
  have 2: "\<not> startsWith (dec n) ''-''" "\<not> startsWith (dec n) ''+''"
    using c is_digit_not_sign [of c] by (auto simp: d startsWith_def)
  have 3: "takeWhile is_digit (dec n) = dec n"
    using dig by (simp add: takeWhile_eq_all_conv)
  show ?thesis
    by (simp add: parseInt_def 1 2 3 dec_nonempty digits_val_dec)
qed

subsection \<open>Trimming\<close>

lemma trim_no_ws: "\<forall>c \<in> set s. \<not> is_ws c \<Longrightarrow> trim s = s"
proof -
  assume a: "\<forall>c \<in> set s. \<not> is_ws c"
  have dw: "dropWhile is_ws xs = xs" if "\<forall>c \<in> set xs. \<not> is_ws c" for xs
    using that by (cases xs) auto
  have "dropWhile is_ws (rev s) = rev s"
    using a by (intro dw) simp
  then show ?thesis using a by (simp add: trim_def dw)
qed

lemma trim_empty_iff: "trim s = [] \<longleftrightarrow> (\<forall>c \<in> set s. is_ws c)"
proof
  assume "trim s = []"
  then have "dropWhile is_ws (rev (dropWhile is_ws s)) = []"
    by (simp add: trim_def)
  then have "\<forall>c \<in> set (dropWhile is_ws s). is_ws c"
    by (simp add: dropWhile_eq_Nil_conv)
  then have "dropWhile is_ws s = []"
    by (metis dropWhile_eq_Nil_conv dropWhile_idem)
  then show "\<forall>c \<in> set s. is_ws c"
    by (simp add: dropWhile_eq_Nil_conv)
next
  assume "\<forall>c \<in> set s. is_ws c"
  then have e: "dropWhile is_ws s = []"
    by (induction s) auto
  show "trim s = []"
    unfolding trim_def e by simp
qed

lemma to_number_small: "n < 2 ^ 53 \<Longrightarrow> to_number (int n) = Num (int n)"
  by (simp add: to_number_def round_double_small)

lemma trim_padded:
  assumes "\<forall>c \<in> set a. is_ws c" and "\<forall>c \<in> set b. is_ws c"
    and "s = [] \<or> (\<not> is_ws (hd s) \<and> \<not> is_ws (last s))"
  shows "trim (a @ s @ b) = s"
proof (cases "s = []")
  case True
  have "\<forall>c \<in> set (a @ s @ b). is_ws c"
    using assms(1,2) True by auto
  then have "trim (a @ s @ b) = []"
    by (simp only: trim_empty_iff)
  then show ?thesis
    using True by simp
next
  case False
  then have h: "\<not> is_ws (hd s)" and l: "\<not> is_ws (last s)"
    using assms(3) by simp_all
  obtain c cs where s: "s = c # cs"
    using False by (cases s) auto
  have "dropWhile is_ws (a @ s @ b) = dropWhile is_ws (s @ b)"
    using assms(1) by (intro dropWhile_append2) simp
  also have "\<dots> = s @ b"
    using h by (simp add: s)
  finally have 1: "dropWhile is_ws (a @ s @ b) = s @ b" .
  obtain d ds where r: "rev s = d # ds"
    using False by (cases "rev s") auto
  have "d = last s"
    using r False by (metis last_rev list.sel(1) rev_rev_ident rev_is_Nil_conv)
  then have d: "\<not> is_ws d"
    using l by simp
  have "dropWhile is_ws (rev b @ rev s) = dropWhile is_ws (rev s)"
    using assms(2) by (intro dropWhile_append2) simp
  also have "\<dots> = rev s"
    using d by (simp add: r)
  finally have 2: "dropWhile is_ws (rev (s @ b)) = rev s"
    by simp
  show ?thesis
    by (simp only: trim_def 1 2 rev_rev_ident)
qed

subsection \<open>Joining\<close>

lemma split_from_nonempty: "split_from sep acc s \<noteq> []"
  by (induction sep acc s rule: split_from.induct) simp_all

lemma join_Cons: "ys \<noteq> [] \<Longrightarrow> join (x # ys) sep = x @ sep @ join ys sep"
  by (cases ys) simp_all

lemma join_split_from:
  "sep \<noteq> [] \<Longrightarrow> join (split_from sep acc s) sep = rev acc @ s"
proof (induction sep acc s rule: split_from.induct)
  case (1 sep acc)
  show ?case by simp
next
  case (2 sep acc c cs)
  show ?case
  proof (cases "startsWith (c # cs) sep")
    case True
    have "c # cs = take (length sep) (c # cs) @ drop (length sep) (c # cs)"
      by simp
    also have "take (length sep) (c # cs) = sep"
      using True by (simp add: startsWith_def)
    also have "drop (length sep) (c # cs) = drop (length sep - 1) cs"
      using "2.prems" by (cases sep) simp_all
    finally have cs: "c # cs = sep @ drop (length sep - 1) cs" .
    have "join (split_from sep acc (c # cs)) sep =
        rev acc @ sep @ join (split_from sep [] (drop (length sep - 1) cs)) sep"
      using True by (simp add: join_Cons split_from_nonempty)
    also have "\<dots> = rev acc @ sep @ drop (length sep - 1) cs"
      using "2.IH"(1) [OF True "2.prems"] by simp
    also have "\<dots> = rev acc @ (c # cs)"
      using cs by simp
    finally show ?thesis .
  next
    case False
    then show ?thesis
      using "2.IH"(2) [OF False "2.prems"] by simp
  qed
qed

lemma join_split: "join (split data [CR, LF]) [CR, LF] = data"
  using join_split_from [of "[CR, LF]" "[]" data] by (simp add: split_def)

lemma split_join:
  assumes "\<forall>l \<in> set ls. CR \<notin> set l" and "ls \<noteq> []"
  shows "split (join ls [CR, LF]) [CR, LF] = ls"
proof -
  have "split_from [CR, LF] [] (join ls [CR, LF]) = ls"
    using assms
  proof (induction ls "[CR, LF]" rule: join.induct)
    case 1
    then show ?case by simp
  next
    case (2 x)
    then have "hd [CR, LF] \<notin> set x" by simp
    then have "split_from [CR, LF] [] x = [rev [] @ x]"
      by (intro split_from_plain) simp_all
    then show ?case by simp
  next
    case (3 x y ys)
    have "hd [CR, LF] \<notin> set x"
      using "3.prems" by simp
    then have "split_from [CR, LF] [] (x @ [CR, LF] @ join (y # ys) [CR, LF]) =
        (rev [] @ x) # split_from [CR, LF] [] (join (y # ys) [CR, LF])"
      by (intro split_from_line) simp_all
    moreover have "split_from [CR, LF] [] (join (y # ys) [CR, LF]) = y # ys"
      using "3.prems" by (intro "3.hyps") simp_all
    ultimately show ?case by simp
  qed
  then show ?thesis
    by (simp add: split_def)
qed

subsection \<open>The fields of a line\<close>

lemma split_from_colon:
  "split_from '':'' acc l =
     (rev acc @ takeWhile (\<lambda>c. c \<noteq> CHR '':'') l) #
     (if CHR '':'' \<in> set l
      then split_from '':'' [] (tl (dropWhile (\<lambda>c. c \<noteq> CHR '':'') l)) else [])"
  by (induction l arbitrary: acc) (simp_all add: startsWith_def)

lemma parse_line_fields:
  "parse_line (split l '':'') =
     \<lparr>suffix = trim (first_field l), count = parseInt (second_field l)\<rparr>"
proof (cases "CHR '':'' \<in> set l")
  case True
  let ?rest = "tl (dropWhile (\<lambda>c. c \<noteq> CHR '':'') l)"
  obtain xs where xs: "split_from '':'' [] ?rest = takeWhile (\<lambda>c. c \<noteq> CHR '':'') ?rest # xs"
    using split_from_colon [of "[]" ?rest] by simp
  have "split l '':'' = takeWhile (\<lambda>c. c \<noteq> CHR '':'') l # split_from '':'' [] ?rest"
    using True split_from_colon [of "[]" l] by (simp add: split_def)
  then have "split l '':'' = first_field l # second_field l # xs"
    using True xs by (simp add: first_field_def second_field_def)
  then show ?thesis by simp
next
  case False
  have "split l '':'' = [takeWhile (\<lambda>c. c \<noteq> CHR '':'') l]"
    using False split_from_colon [of "[]" l] by (simp add: split_def)
  then show ?thesis
    using False by (simp add: first_field_def second_field_def)
qed

lemma parse_response_fields:
  "parse_response data =
     map (\<lambda>l. \<lparr>suffix = trim (first_field l), count = parseInt (second_field l)\<rparr>)
       (filter (\<lambda>l. \<not> list_all is_ws l) (split data [CR, LF]))"
proof -
  have "(\<lambda>line. trim line \<noteq> []) = (\<lambda>l. \<not> list_all is_ws l)"
    by (simp add: trim_empty_iff list_all_iff)
  then show ?thesis
    by (simp add: parse_response_def parse_line_fields)
qed

subsection \<open>The examples\<close>

lemma sample_digest_halves:
  "prefix_of sample_digest ''password'' = ''5BAA6''"
  "suffix_of sample_digest ''password'' = ''1E4C9B93F3F0682250B6CF8331B7EE68FD8''"
  "prefix_of sample_digest ''password866713'' = ''5BAA6''"
  "suffix_of sample_digest ''password866713'' = ''EC34C4FB25040420B0624F826E874094778''"
  "prefix_of sample_digest ''password919031'' = ''5BAA6''"
  "suffix_of sample_digest ''password919031'' = ''DE054B9F5C26671257C2D961F7ECD3B0044''"
  by (simp_all add: prefix_of_def suffix_of_def substring_def substring_from_def
      HASH_PREFIX_LENGTH_def sample_digest_def sha1_def toUpperCase_def upper_char_def)

lemmas parse_simps = parse_response_def split_def startsWith_def trim_def is_ws_def
  parseInt_def is_digit_def digits_val_def digit_val_def CR_def LF_def Let_def
  to_number_def round_double_def

lemma parse_sample_body:
  "parse_response sample_body =
     [\<lparr>suffix = ''1E4C9B93F3F0682250B6CF8331B7EE68FD8'', count = Num 3\<rparr>,
      \<lparr>suffix = ''EC34C4FB25040420B0624F826E874094778'', count = Num 12\<rparr>]"
  by (simp add: sample_body_def parse_simps)

lemma parse_lower_body:
  "parse_response lower_body =
     [\<lparr>suffix = ''1e4c9b93f3f0682250b6cf8331b7ee68fd8'', count = Num 3\<rparr>]"
  by (simp add: lower_body_def parse_simps)

lemma parse_negative_body:
  "parse_response negative_body =
     [\<lparr>suffix = ''1E4C9B93F3F0682250B6CF8331B7EE68FD8'', count = Num (- 5)\<rparr>]"
  by (simp add: negative_body_def parse_simps)

lemma parse_garbage:
  "parse_response ''<html>503 Service Unavailable</html>'' =
     [\<lparr>suffix = ''<html>503 Service Unavailable</html>'', count = NaN\<rparr>]"
  by (simp add: parse_simps)

lemma upper_lower_suffix:
  "toUpperCase ''1e4c9b93f3f0682250b6cf8331b7ee68fd8'' = ''1E4C9B93F3F0682250B6CF8331B7EE68FD8''"
  by (simp add: toUpperCase_def upper_char_def)

lemmas run_simps = main_def initial_def process_entry_def checkPassword_def Let_def
  entry1_def entry2_def sample_digest_halves [unfolded prefix_of_def suffix_of_def]
  parse_sample_body parse_lower_body parse_negative_body parse_garbage find_count_def
  status_of_def API_RATE_LIMIT_DELAY_MS_def awaiting_def

subsection \<open>Parsing what the service writes\<close>

lemma colon_not_ws: "\<not> is_ws (CHR '':'')"
  by (simp add: is_ws_def)

lemma blank_ws: "blank b \<Longrightarrow> \<forall>c \<in> set b. is_ws c"
  by (simp add: blank_def list_all_iff)

lemma blank_no_CR: "blank b \<Longrightarrow> CR \<notin> set b"
  by (auto simp: blank_def list_all_iff)

lemma blank_no_colon: "blank b \<Longrightarrow> CHR '':'' \<notin> set b"
  using colon_not_ws by (auto simp: blank_def list_all_iff)

lemma dec_no_CR: "CR \<notin> set (dec n)"
  using dec_digits [of CR n] digit_not_special [of CR] by blast

lemma dec_no_colon: "CHR '':'' \<notin> set (dec n)"
  using dec_digits [of "CHR '':''" n] is_digit_not_sign [of "CHR '':''"] by blast

lemma wire_line_no_CR: "well_formed l \<Longrightarrow> CR \<notin> set (wire_line l)"
proof (cases l)
  case (Blank b)
  then show "well_formed l \<Longrightarrow> ?thesis"
    by (simp add: blank_no_CR)
next
  case (Line before sfx after n)
  have "CR \<noteq> CHR '':''"
    by (simp add: CR_def)
  then show "well_formed l \<Longrightarrow> ?thesis"
    using Line dec_no_CR [of n] by (auto simp: blank_no_CR list_all_iff)
qed

lemma blank_line_dropped: "blank b \<Longrightarrow> list_all is_ws (wire_line (Blank b))"
  by (simp add: blank_def list_all_iff)

lemma wire_line_kept: "\<not> list_all is_ws (wire_line (Line before sfx after n))"
  using colon_not_ws by (auto simp: list_all_iff)

lemma wire_line_fields:
  assumes "well_formed (Line before sfx after n)"
  shows "first_field (wire_line (Line before sfx after n)) = before @ sfx @ after"
    and "second_field (wire_line (Line before sfx after n)) = dec n"
proof -
  let ?pre = "before @ sfx @ after"
  have "CHR '':'' \<notin> set sfx"
    using assms by (auto simp: list_all_iff)
  then have pre: "\<forall>c \<in> set ?pre. c \<noteq> CHR '':''"
    using assms blank_no_colon [of before] blank_no_colon [of after] by auto
  have l: "wire_line (Line before sfx after n) = ?pre @ CHR '':'' # dec n"
    by simp
  have "takeWhile (\<lambda>c. c \<noteq> CHR '':'') (?pre @ CHR '':'' # dec n) =
      ?pre @ takeWhile (\<lambda>c. c \<noteq> CHR '':'') (CHR '':'' # dec n)"
    using pre by (intro takeWhile_append2) simp
  then have t: "takeWhile (\<lambda>c. c \<noteq> CHR '':'') (?pre @ CHR '':'' # dec n) = ?pre"
    by simp
  have "dropWhile (\<lambda>c. c \<noteq> CHR '':'') (?pre @ CHR '':'' # dec n) =
      dropWhile (\<lambda>c. c \<noteq> CHR '':'') (CHR '':'' # dec n)"
    using pre by (intro dropWhile_append2) simp
  then have d: "tl (dropWhile (\<lambda>c. c \<noteq> CHR '':'') (?pre @ CHR '':'' # dec n)) = dec n"
    by simp
  have e: "takeWhile (\<lambda>c. c \<noteq> CHR '':'') (dec n) = dec n"
    using dec_no_colon [of n] by (auto simp: takeWhile_eq_all_conv)
  show "first_field (wire_line (Line before sfx after n)) = before @ sfx @ after"
    unfolding first_field_def l by (rule t)
  show "second_field (wire_line (Line before sfx after n)) = dec n"
    unfolding second_field_def l by (simp only: d e) simp
qed

lemma parse_wire_line:
  assumes "well_formed (Line before sfx after n)"
  shows "\<lparr>suffix = trim (first_field (wire_line (Line before sfx after n))),
          count = parseInt (second_field (wire_line (Line before sfx after n)))\<rparr> =
         \<lparr>suffix = sfx, count = to_number (int n)\<rparr>"
proof -
  have "\<forall>c \<in> set before. is_ws c" and "\<forall>c \<in> set after. is_ws c"
    using assms blank_ws by auto
  moreover have "sfx = [] \<or> (\<not> is_ws (hd sfx) \<and> \<not> is_ws (last sfx))"
    using assms by simp
  ultimately have "trim (before @ sfx @ after) = sfx"
    by (rule trim_padded)
  then show ?thesis
    by (simp only: wire_line_fields [OF assms] parseInt_dec)
qed

lemma parse_kept_lines:
  assumes "\<forall>l \<in> set ls. well_formed l"
  shows "map (\<lambda>l. \<lparr>suffix = trim (first_field l), count = parseInt (second_field l)\<rparr>)
      (filter (\<lambda>l. \<not> list_all is_ws l) (map wire_line ls)) = entries_of ls"
  using assms
proof (induction ls rule: entries_of.induct)
  case 1
  show ?case by simp
next
  case (2 b ls)
  have "list_all is_ws (wire_line (Blank b))"
    using "2.prems" by (intro blank_line_dropped) simp
  moreover have "map (\<lambda>l. \<lparr>suffix = trim (first_field l), count = parseInt (second_field l)\<rparr>)
      (filter (\<lambda>l. \<not> list_all is_ws l) (map wire_line ls)) = entries_of ls"
    using "2.prems" by (intro "2.IH") simp
  ultimately show ?case
    by (simp del: wire_line.simps)
next
  case (3 before sfx after n ls)
  have "well_formed (Line before sfx after n)"
    using "3.prems" by simp
  then have "\<lparr>suffix = trim (first_field (wire_line (Line before sfx after n))),
          count = parseInt (second_field (wire_line (Line before sfx after n)))\<rparr> =
         \<lparr>suffix = sfx, count = to_number (int n)\<rparr>"
    by (rule parse_wire_line)
  moreover have "\<not> list_all is_ws (wire_line (Line before sfx after n))"
    by (rule wire_line_kept)
  moreover have "map (\<lambda>l. \<lparr>suffix = trim (first_field l), count = parseInt (second_field l)\<rparr>)
      (filter (\<lambda>l. \<not> list_all is_ws l) (map wire_line ls)) = entries_of ls"
    using "3.prems" by (intro "3.IH") simp
  ultimately show ?case
    by (simp del: wire_line.simps)
qed

lemma parse_wire:
  assumes "\<forall>l \<in> set ls. well_formed l"
  shows "parse_response (join (map wire_line ls) [CR, LF]) = entries_of ls"
proof (cases "ls = []")
  case True
  then show ?thesis
    by (simp add: parse_response_def split_def trim_def)
next
  case False
  have "\<forall>l \<in> set (map wire_line ls). CR \<notin> set l"
    using assms wire_line_no_CR by auto
  then have "split (join (map wire_line ls) [CR, LF]) [CR, LF] = map wire_line ls"
    using False by (intro split_join) simp_all
  then show ?thesis
    using parse_kept_lines [OF assms] by (simp only: parse_response_fields)
qed

lemma split_line:
  assumes "CR \<notin> set l"
  shows "split (l @ [CR, LF] @ rest) [CR, LF] = l # split rest [CR, LF]"
    and "split l [CR, LF] = [l]"
proof -
  have h: "hd [CR, LF] \<notin> set l"
    using assms by simp
  have "split_from [CR, LF] [] (l @ [CR, LF] @ rest) = (rev [] @ l) # split_from [CR, LF] [] rest"
    using _ h by (rule split_from_line) simp
  then show "split (l @ [CR, LF] @ rest) [CR, LF] = l # split rest [CR, LF]"
    by (simp add: split_def)
  have "split_from [CR, LF] [] l = [rev [] @ l]"
    using _ h by (rule split_from_plain) simp
  then show "split l [CR, LF] = [l]"
    by (simp add: split_def)
qed

text \<open>
  Claim C7, amended. Every body is cut at each \<open>\r\n\<close> (joining the pieces with \<open>\r\n\<close> gives
  the body back); the pieces that are nothing but white space are dropped; of each remaining
  piece, what is before its first colon, with the white space around it trimmed and its case
  left as it is, is the suffix, and what \<open>parseInt\<close> reads between that colon and the next
  is the count. So a body whose lines are suffixes, each with white space around it or none,
  followed by a colon and a count in decimal digits, with blank lines among them, the last
  line ended by \<open>\r\n\<close> or not, is parsed into the entries of its lines that are not blank, in
  order. The count is the double nearest to the integer written, the integer itself below
  \<open>2^53\<close>.
\<close>

theorem parse_response_wire:
  "parse_response data =
     map (\<lambda>l. \<lparr>suffix = trim (first_field l), count = parseInt (second_field l)\<rparr>)
       (filter (\<lambda>l. \<not> list_all is_ws l) (split data [CR, LF]))
   \<and> join (split data [CR, LF]) [CR, LF] = data
   \<and> (CR \<notin> set l \<longrightarrow>
        split (l @ [CR, LF] @ rest) [CR, LF] = l # split rest [CR, LF] \<and> split l [CR, LF] = [l])
   \<and> ((\<forall>w \<in> set ls. well_formed w) \<longrightarrow>
        parse_response (join (map wire_line ls) [CR, LF]) = entries_of ls)
   \<and> parseInt (dec n) = to_number (int n)
   \<and> (n < 2 ^ 53 \<longrightarrow> to_number (int n) = Num (int n))"
proof -
  have 1: "CR \<notin> set l \<longrightarrow>
        split (l @ [CR, LF] @ rest) [CR, LF] = l # split rest [CR, LF] \<and> split l [CR, LF] = [l]"
    using split_line(1) [of l rest] split_line(2) [of l] by blast
  have 2: "(\<forall>w \<in> set ls. well_formed w) \<longrightarrow>
        parse_response (join (map wire_line ls) [CR, LF]) = entries_of ls"
    using parse_wire [of ls] by blast
  have 3: "n < 2 ^ 53 \<longrightarrow> to_number (int n) = Num (int n)"
    using to_number_small [of n] by blast
  from parse_response_fields [of data] join_split [of data] 1 2 parseInt_dec [of n] 3
  show ?thesis
    by (intro conjI)
qed

section \<open>The statements at sample runs\<close>

lemma same_prefix: "prefix_of sample_digest (password entry1) = prefix_of sample_digest (password entry2)"
  by (simp add: entry1_def entry2_def sample_digest_halves)

text \<open>
  Claim C1 as it is worded fails when the first of the two remote calls fails: both entries
  then query the service for the same prefix.
\<close>

theorem prefix_queried_twice_counterexample:
  "prefix_of sample_digest (password entry1) = prefix_of sample_digest (password entry2)
   \<and> requests (trace (main sample_digest failing_net [entry1, entry2])) =
       [request_options ''5BAA6'', request_options ''5BAA6'']"
  by (simp add: run_simps failing_net_def prefix_of_def)

theorem fetched_prefix_not_queried_again_witness:
  "prefix_of sample_digest (password entry1) = prefix_of sample_digest (password entry2)
   \<and> \<not> awaiting initial
   \<and> fst (checkPassword sample_digest serving_net (password entry1) initial) = Resolved (Num 3)
   \<and> trace (batch sample_digest serving_net [entry1, entry2] initial) =
       trace (batch sample_digest serving_net [entry1] initial)
   \<and> fst (checkPassword sample_digest failing_net (password entry2)
        (batch sample_digest serving_net [entry1] initial)) = Resolved (Num 12)
   \<and> distinct (fetched (trace (main sample_digest serving_net [entry1, entry2])))"
proof -
  have h: "fst (checkPassword sample_digest serving_net (password ([entry1, entry2] ! 0))
      (batch sample_digest serving_net (take 0 [entry1, entry2]) initial)) = Resolved (Num 3)"
    by (simp add: run_simps serving_net_def)
  have p: "prefix_of sample_digest (password ([entry1, entry2] ! 0)) =
      prefix_of sample_digest (password ([entry1, entry2] ! 1))"
    using same_prefix by simp
  have n: "\<not> awaiting (batch sample_digest serving_net (take 0 [entry1, entry2]) initial)"
    by (simp add: awaiting_initial)
  note t = fetched_prefix_not_queried_again [of 0 1 "[entry1, entry2]" sample_digest serving_net
        initial "Num 3", OF _ _ p h]
  have 1: "trace (batch sample_digest serving_net [entry1, entry2] initial) =
       trace (batch sample_digest serving_net [entry1] initial)"
    using t [THEN conjunct1] by simp
  have 2: "distinct (fetched (trace (main sample_digest serving_net [entry1, entry2])))"
    using t by simp
  have 3: "fst (checkPassword sample_digest serving_net (password entry1) initial) = Resolved (Num 3)"
    using h by simp
  have 4: "fst (checkPassword sample_digest failing_net (password entry2)
        (batch sample_digest serving_net [entry1] initial)) = Resolved (Num 12)"
    by (simp add: run_simps serving_net_def failing_net_def)
  from same_prefix awaiting_initial 3 1 4 2 show ?thesis by (intro conjI)
qed

theorem request_depends_on_prefix_only_witness:
  "prefix_of sample_digest ''password'' = prefix_of sample_digest ''password866713''
   \<and> length (sha1 sample_digest ''password'') = 40
   \<and> requests (trace (snd (checkPassword sample_digest serving_net ''password'' initial))) =
       requests (trace (snd (checkPassword sample_digest failing_net ''password866713'' initial)))
   \<and> \<not> str_includes (path (request_options (prefix_of sample_digest ''password'')))
         (suffix_of sample_digest ''password'')"
proof -
  have p: "prefix_of sample_digest ''password'' = prefix_of sample_digest ''password866713''"
    by (simp add: sample_digest_halves)
  have l: "length (sha1 sample_digest ''password'') = 40"
    by (simp add: sample_digest_def sha1_def toUpperCase_def)
  note t = request_depends_on_prefix_only [where net = serving_net and net' = failing_net
      and s = initial, OF p l]
  have 1: "requests (trace (snd (checkPassword sample_digest serving_net ''password'' initial))) =
       requests (trace (snd (checkPassword sample_digest failing_net ''password866713'' initial)))"
    using t by (rule conjunct1)
  have 2: "\<forall>str \<in> set (request_strings (request_options (prefix_of sample_digest ''password''))).
      \<not> str_includes str (suffix_of sample_digest ''password'')"
    using t by (elim conjE)
  have "path (request_options (prefix_of sample_digest ''password'')) \<in>
      set (request_strings (request_options (prefix_of sample_digest ''password'')))"
    by (simp add: request_strings_def)
  with 2 have 3: "\<not> str_includes (path (request_options (prefix_of sample_digest ''password'')))
         (suffix_of sample_digest ''password'')"
    by (rule bspec)
  from p l 1 3 show ?thesis by (intro conjI)
qed

text \<open>
  Claim C3 as it is worded fails for a body that is no list of suffixes: it is parsed as it
  is, stored under the prefix, and the lookup resolves with \<open>0\<close>; the next entry with the
  prefix is answered from the cache. It fails for a request that is never answered, too:
  the lookup is neither resolved nor rejected, no record is pushed for either entry, and the
  second entry sends no request.
\<close>

theorem malformed_body_cached_counterexample:
  "fst (checkPassword sample_digest garbage_net (password entry1) initial) = Resolved (Num 0)
   \<and> map_has (hashCache (snd (checkPassword sample_digest garbage_net (password entry1) initial)))
        (prefix_of sample_digest (password entry1))
   \<and> map r_count (results (main sample_digest garbage_net [entry1, entry2])) = [Num 0, Num 0]
   \<and> requests (trace (main sample_digest garbage_net [entry1, entry2])) = [request_options ''5BAA6'']
   \<and> fst (checkPassword sample_digest silent_net (password entry1) initial) = Pending
   \<and> results (main sample_digest silent_net [entry1, entry2]) = []
   \<and> requests (trace (main sample_digest silent_net [entry1, entry2])) = [request_options ''5BAA6'']"
  by (simp add: run_simps garbage_net_def silent_net_def prefix_of_def)

theorem failed_lookup_not_cached_witness:
  "\<not> map_has (hashCache initial) (prefix_of sample_digest (password entry1))
   \<and> prefix_of sample_digest (password entry2) = prefix_of sample_digest (password entry1)
   \<and> failing_net (length (requests (trace initial)))
        (request_options (prefix_of sample_digest (password entry1))) = NetError ''socket hang up''
   \<and> results (process_entry sample_digest failing_net entry1 initial) =
        [record_of entry1 (Num (- 1)) (Error ''socket hang up'')]
   \<and> hashCache (process_entry sample_digest failing_net entry1 initial) = []
   \<and> requests (trace (snd (checkPassword sample_digest serving_net (password entry2)
         (process_entry sample_digest failing_net entry1 initial)))) =
       [request_options ''5BAA6'', request_options ''5BAA6'']
   \<and> garbage_net (length (requests (trace initial)))
        (request_options (prefix_of sample_digest (password entry1))) =
       Data ''<html>503 Service Unavailable</html>''
   \<and> map_get (hashCache (process_entry sample_digest garbage_net entry1 initial))
        (prefix_of sample_digest (password entry2)) =
       Some [\<lparr>suffix = ''<html>503 Service Unavailable</html>'', count = NaN\<rparr>]
   \<and> fst (checkPassword sample_digest serving_net (password entry2)
         (process_entry sample_digest garbage_net entry1 initial)) = Resolved (Num 0)
   \<and> silent_net (length (requests (trace initial)))
        (request_options (prefix_of sample_digest (password entry1))) = NoAnswer
   \<and> results (process_entry sample_digest silent_net entry1 initial) = []
   \<and> awaiting (process_entry sample_digest silent_net entry1 initial)
   \<and> batch sample_digest serving_net [entry2] (process_entry sample_digest silent_net entry1 initial) =
       process_entry sample_digest silent_net entry1 initial"
proof -
  have a: "\<not> map_has (hashCache initial) (prefix_of sample_digest (password entry1))"
    by (simp add: initial_def)
  have c: "prefix_of sample_digest (password entry2) = prefix_of sample_digest (password entry1)"
    using same_prefix by simp
  have b1: "failing_net (length (requests (trace initial)))
        (request_options (prefix_of sample_digest (password entry1))) = NetError ''socket hang up''"
    by (simp add: failing_net_def)
  have b2: "garbage_net (length (requests (trace initial)))
        (request_options (prefix_of sample_digest (password entry1))) =
       Data ''<html>503 Service Unavailable</html>''"
    by (simp add: garbage_net_def)
  have b3: "silent_net (length (requests (trace initial)))
        (request_options (prefix_of sample_digest (password entry1))) = NoAnswer"
    by (simp add: silent_net_def)
  have d: "requests (trace (process_entry sample_digest failing_net entry1 initial)) =
      [request_options ''5BAA6'']"
    by (simp add: run_simps failing_net_def)
  have e: "prefix_of sample_digest (password entry2) = ''5BAA6''"
    by (simp add: entry2_def sample_digest_halves)
  have f: "suffix_of sample_digest (password entry2) = ''EC34C4FB25040420B0624F826E874094778''"
    by (simp add: entry2_def sample_digest_halves)
  note t1 = failed_lookup_not_cached [where net = failing_net and net' = serving_net
      and s = initial and e = entry1 and pw = "password entry2" and es = "[entry2]", OF a c,
      THEN conjunct1, rule_format, OF b1]
  note t2 = failed_lookup_not_cached [where net = garbage_net and net' = serving_net
      and s = initial and e = entry1 and pw = "password entry2" and es = "[entry2]", OF a c,
      THEN conjunct2, THEN conjunct1, rule_format, OF b2]
  note t3 = failed_lookup_not_cached [where net = silent_net and net' = serving_net
      and s = initial and e = entry1 and pw = "password entry2" and es = "[entry2]", OF a c,
      THEN conjunct2, THEN conjunct2, rule_format, OF b3]
  have 1: "results (process_entry sample_digest failing_net entry1 initial) =
        [record_of entry1 (Num (- 1)) (Error ''socket hang up'')]"
    using t1 by (simp add: initial_def)
  have 2: "hashCache (process_entry sample_digest failing_net entry1 initial) = []"
    using t1 by (simp add: initial_def)
  have 3: "requests (trace (snd (checkPassword sample_digest serving_net (password entry2)
         (process_entry sample_digest failing_net entry1 initial)))) =
       [request_options ''5BAA6'', request_options ''5BAA6'']"
    using t1 by (simp add: d e)
  have 4: "map_get (hashCache (process_entry sample_digest garbage_net entry1 initial))
        (prefix_of sample_digest (password entry2)) =
       Some [\<lparr>suffix = ''<html>503 Service Unavailable</html>'', count = NaN\<rparr>]"
    using t2 [THEN conjunct2, THEN conjunct2, THEN conjunct2, THEN conjunct1]
    by (simp add: parse_garbage)
  have 5: "fst (checkPassword sample_digest serving_net (password entry2)
         (process_entry sample_digest garbage_net entry1 initial)) = Resolved (Num 0)"
    using t2 [THEN conjunct2, THEN conjunct2, THEN conjunct2, THEN conjunct2, THEN conjunct2]
    by (simp add: parse_garbage f find_count_def)
  have 6: "results (process_entry sample_digest silent_net entry1 initial) = []"
    using t3 [THEN conjunct2, THEN conjunct2, THEN conjunct1] by (simp add: initial_def)
  have 7: "awaiting (process_entry sample_digest silent_net entry1 initial)"
    using t3 [THEN conjunct2, THEN conjunct2, THEN conjunct2, THEN conjunct2, THEN conjunct1] .
  have 8: "batch sample_digest serving_net [entry2] (process_entry sample_digest silent_net entry1 initial) =
       process_entry sample_digest silent_net entry1 initial"
    using t3 [THEN conjunct2, THEN conjunct2, THEN conjunct2, THEN conjunct2, THEN conjunct2] .
  from a c b1 1 2 3 b2 4 5 b3 6 7 8 show ?thesis by (intro conjI)
qed

text \<open>
  Claim C5 as it is worded fails when a request is never answered: the run stays at that
  entry, and neither it nor the entries after it get a record.
\<close>

theorem unanswered_request_stops_run_counterexample:
  "length [entry1, entry2] = 2
   \<and> results (main sample_digest silent_net [entry1, entry2]) = []
   \<and> awaiting (main sample_digest silent_net [entry1, entry2])
   \<and> trace (main sample_digest silent_net [entry1, entry2]) = [Request (request_options ''5BAA6'')]"
  by (simp add: run_simps silent_net_def)

theorem batch_one_result_per_entry_witness:
  "fst (checkPassword sample_digest flaky_net (password entry1) initial) = Rejected ''socket hang up''
   \<and> results (main sample_digest flaky_net [entry1, entry2]) ! 0 =
       record_of entry1 (Num (- 1)) (Error ''socket hang up'')
   \<and> results (main sample_digest flaky_net [entry1, entry2]) ! 1 =
       record_of entry2 (Num 12) (Pwned (Num 12))
   \<and> \<not> awaiting (main sample_digest flaky_net [entry1, entry2])
   \<and> map (\<lambda>r. (password r, originalLineNumber r)) (results (main sample_digest flaky_net [entry1, entry2])) =
       [(''password'', 1), (''password866713'', 2)]
   \<and> map r_count (results (main sample_digest flaky_net [entry1, entry2])) = [Num (- 1), Num 12]
   \<and> fst (checkPassword sample_digest silent_net (password entry1) initial) = Pending
   \<and> length (results (main sample_digest silent_net [entry1, entry2])) = 0"
proof -
  have n0: "\<not> awaiting (batch sample_digest flaky_net (take 0 [entry1, entry2]) initial)"
    by (simp add: awaiting_initial)
  have h0: "fst (checkPassword sample_digest flaky_net (password ([entry1, entry2] ! 0))
      (batch sample_digest flaky_net (take 0 [entry1, entry2]) initial)) = Rejected ''socket hang up''"
    by (simp add: run_simps flaky_net_def)
  have n1: "\<not> awaiting (batch sample_digest flaky_net (take 1 [entry1, entry2]) initial)"
    by (simp add: run_simps flaky_net_def)
  have h1: "fst (checkPassword sample_digest flaky_net (password ([entry1, entry2] ! 1))
      (batch sample_digest flaky_net (take 1 [entry1, entry2]) initial)) = Resolved (Num 12)"
    by (simp add: run_simps flaky_net_def)
  have c: "map r_count (results (main sample_digest flaky_net [entry1, entry2])) = [Num (- 1), Num 12]"
    by (simp add: run_simps flaky_net_def)
  have a: "\<forall>n r. flaky_net n r \<noteq> NoAnswer"
    by (simp add: flaky_net_def)
  have m0: "\<not> awaiting (batch sample_digest silent_net (take 0 [entry1, entry2]) initial)"
    by (simp add: awaiting_initial)
  have g0: "fst (checkPassword sample_digest silent_net (password ([entry1, entry2] ! 0))
      (batch sample_digest silent_net (take 0 [entry1, entry2]) initial)) = Pending"
    by (simp add: run_simps silent_net_def)
  note t = batch_one_result_per_entry [of sample_digest flaky_net "[entry1, entry2]"]
  note u = batch_one_result_per_entry [of sample_digest silent_net "[entry1, entry2]"]
  have e: "\<not> awaiting (main sample_digest flaky_net [entry1, entry2])"
    using t [THEN conjunct2, THEN conjunct2, THEN conjunct1] a by simp
  have "results (main sample_digest flaky_net [entry1, entry2]) ! 0 =
       record_of ([entry1, entry2] ! 0) (Num (- 1)) (Error ''socket hang up'')"
    using t [THEN conjunct2, THEN conjunct2, THEN conjunct2, THEN conjunct2, THEN conjunct1,
        rule_format, of 0 "''socket hang up''"] h0 n0
    by simp
  then have 1: "results (main sample_digest flaky_net [entry1, entry2]) ! 0 =
       record_of entry1 (Num (- 1)) (Error ''socket hang up'')"
    by simp
  have "results (main sample_digest flaky_net [entry1, entry2]) ! 1 =
       record_of ([entry1, entry2] ! 1) (Num 12) (status_of (Num 12))"
    using t [THEN conjunct2, THEN conjunct2, THEN conjunct2, THEN conjunct1,
        rule_format, of 1 "Num 12"] h1 n1
    by simp
  then have 2: "results (main sample_digest flaky_net [entry1, entry2]) ! 1 =
       record_of entry2 (Num 12) (Pwned (Num 12))"
    by (simp add: status_of_def)
  have "map (\<lambda>r. (password r, originalLineNumber r))
      (results (main sample_digest flaky_net [entry1, entry2])) =
       map (\<lambda>e. (password e, originalLineNumber e)) [entry1, entry2]"
    using t [THEN conjunct2, THEN conjunct1] e by simp
  then have 3: "map (\<lambda>r. (password r, originalLineNumber r))
      (results (main sample_digest flaky_net [entry1, entry2])) =
       [(''password'', 1), (''password866713'', 2)]"
    by (simp add: entry1_def entry2_def)
  have 0: "fst (checkPassword sample_digest flaky_net (password entry1) initial) = Rejected ''socket hang up''"
    using h0 by simp
  have 4: "fst (checkPassword sample_digest silent_net (password entry1) initial) = Pending"
    using g0 by simp
  have 5: "length (results (main sample_digest silent_net [entry1, entry2])) = 0"
    using u [THEN conjunct2, THEN conjunct2, THEN conjunct2, THEN conjunct2, THEN conjunct2,
        rule_format, of 0] g0 m0
    by (simp add: initial_def)
  from 0 1 2 e 3 c 4 5 show ?thesis by (intro conjI)
qed

theorem absent_suffix_is_safe_witness:
  "\<not> map_has (hashCache initial) (prefix_of sample_digest ''password919031'')
   \<and> suffix_of sample_digest ''password919031'' \<notin> set (map suffix (parse_response sample_body))
   \<and> fst (checkPassword sample_digest serving_net ''password919031'' initial) = Resolved (Num 0)
   \<and> checkPassword sample_digest failing_net ''password919031''
        (snd (checkPassword sample_digest serving_net ''password919031'' initial)) =
       (Resolved (Num 0), snd (checkPassword sample_digest serving_net ''password919031'' initial))
   \<and> map_get (hashCache (snd (checkPassword sample_digest serving_net ''password919031'' initial)))
        (prefix_of sample_digest ''password919031'') = Some (parse_response sample_body)
   \<and> requests (trace (snd (checkPassword sample_digest failing_net ''password919031''
        (snd (checkPassword sample_digest serving_net ''password919031'' initial))))) =
       requests (trace (snd (checkPassword sample_digest serving_net ''password919031'' initial)))"
proof -
  have a: "map_get (hashCache initial) (prefix_of sample_digest ''password919031'') =
        Some (parse_response sample_body)
      \<or> (\<not> map_has (hashCache initial) (prefix_of sample_digest ''password919031'')
         \<and> serving_net (length (requests (trace initial)))
             (request_options (prefix_of sample_digest ''password919031'')) = Data sample_body
         \<and> parse_response sample_body = parse_response sample_body)"
    by (simp add: initial_def serving_net_def)
  have b: "\<forall>x \<in> set (parse_response sample_body). suffix x \<noteq> suffix_of sample_digest ''password919031''"
    by (simp add: parse_sample_body sample_digest_halves)
  have c: "\<not> map_has (hashCache initial) (prefix_of sample_digest ''password919031'')"
    by (simp add: initial_def)
  note t = absent_suffix_is_safe [where net = serving_net and net' = failing_net
      and s = initial and body = sample_body, OF a b]
  have b': "suffix_of sample_digest ''password919031'' \<notin> set (map suffix (parse_response sample_body))"
    by (simp add: parse_sample_body sample_digest_halves)
  from c b' t [THEN conjunct1] t [THEN conjunct2, THEN conjunct1]
    t [THEN conjunct2, THEN conjunct2, THEN conjunct1]
    t [THEN conjunct2, THEN conjunct2, THEN conjunct2, THEN conjunct2, THEN conjunct1]
  show ?thesis by (intro conjI)
qed

text \<open>
  Claim C7 as it is worded fails: the suffixes are not put into upper case, so the suffix
  of \<open>password\<close> received in lower case is not found and the lookup answers \<open>0\<close>, where the
  same line in upper case gives the count \<open>3\<close>.
\<close>

theorem lowercase_suffix_counterexample:
  "toUpperCase ''1e4c9b93f3f0682250b6cf8331b7ee68fd8'' = suffix_of sample_digest ''password''
   \<and> parse_response lower_body =
       [\<lparr>suffix = ''1e4c9b93f3f0682250b6cf8331b7ee68fd8'', count = Num 3\<rparr>]
   \<and> fst (checkPassword sample_digest lower_net ''password'' initial) = Resolved (Num 0)
   \<and> fst (checkPassword sample_digest serving_net ''password'' initial) = Resolved (Num 3)"
  by (simp add: run_simps lower_net_def serving_net_def upper_lower_suffix sample_digest_halves)

theorem parse_response_wire_witness:
  "well_formed (Line '' '' ''1e4c9b93f3f0682250b6cf8331b7ee68fd8'' '' '' 3)
   \<and> well_formed (Blank '' '')
   \<and> well_formed (Line [] ''EC34C4FB25040420B0624F826E874094778'' [] 12)
   \<and> well_formed (Blank [])
   \<and> parse_response
       ('' 1e4c9b93f3f0682250b6cf8331b7ee68fd8 :3'' @ [CR, LF] @ '' '' @ [CR, LF] @
        ''EC34C4FB25040420B0624F826E874094778:12'' @ [CR, LF]) =
     [\<lparr>suffix = ''1e4c9b93f3f0682250b6cf8331b7ee68fd8'', count = Num 3\<rparr>,
      \<lparr>suffix = ''EC34C4FB25040420B0624F826E874094778'', count = Num 12\<rparr>]
   \<and> CR \<notin> set ''A:1''
   \<and> split (''A:1'' @ [CR, LF] @ ''B:2'') [CR, LF] = [''A:1'', ''B:2'']
   \<and> parseInt ''9007199254740993'' = Num 9007199254740992"
proof -
  let ?ls = "[Line '' '' ''1e4c9b93f3f0682250b6cf8331b7ee68fd8'' '' '' 3, Blank '' '',
    Line [] ''EC34C4FB25040420B0624F826E874094778'' [] 12, Blank []]"
  note t = parse_response_wire [of "[]" "''A:1''" "''B:2''" ?ls 9007199254740993]
  have w1: "well_formed (Line '' '' ''1e4c9b93f3f0682250b6cf8331b7ee68fd8'' '' '' 3)"
    and w2: "well_formed (Blank '' '')"
    and w3: "well_formed (Line [] ''EC34C4FB25040420B0624F826E874094778'' [] 12)"
    and w4: "well_formed (Blank [])"
    by (simp_all add: blank_def is_ws_def CR_def)
  have "parse_response (join (map wire_line ?ls) [CR, LF]) = entries_of ?ls"
    using t [THEN conjunct2, THEN conjunct2, THEN conjunct2, THEN conjunct1] w1 w2 w3 w4
    by simp
  then have 1: "parse_response
       ('' 1e4c9b93f3f0682250b6cf8331b7ee68fd8 :3'' @ [CR, LF] @ '' '' @ [CR, LF] @
        ''EC34C4FB25040420B0624F826E874094778:12'' @ [CR, LF]) =
     [\<lparr>suffix = ''1e4c9b93f3f0682250b6cf8331b7ee68fd8'', count = Num 3\<rparr>,
      \<lparr>suffix = ''EC34C4FB25040420B0624F826E874094778'', count = Num 12\<rparr>]"
    by (simp add: dec.simps digit_char_def to_number_def round_double_def)
  have c: "CR \<notin> set ''A:1''"
    by (simp add: CR_def)
  have "split (''A:1'' @ [CR, LF] @ ''B:2'') [CR, LF] = ''A:1'' # split ''B:2'' [CR, LF]"
    and "split ''B:2'' [CR, LF] = [''B:2'']"
    using t [THEN conjunct2, THEN conjunct2, THEN conjunct1] c
      parse_response_wire [of "[]" "''B:2''" "[]" "[]" 0, THEN conjunct2, THEN conjunct2, THEN conjunct1]
    by (simp_all add: CR_def)
  then have 2: "split (''A:1'' @ [CR, LF] @ ''B:2'') [CR, LF] = [''A:1'', ''B:2'']"
    by simp
  have "parseInt (dec 9007199254740993) = to_number (int 9007199254740993)"
    using t by (elim conjE)
  then have 3: "parseInt ''9007199254740993'' = Num 9007199254740992"
    by (simp add: dec.simps digit_char_def to_number_def round_double_def Let_def bitlen.simps)
  from w1 w2 w3 w4 1 c 2 3 show ?thesis by (intro conjI)
qed

text \<open>
  Claim C8 as it is worded fails when the remote call fails: the entry did send a request,
  its prefix being absent from the cache, and the turn ends without a pause.
\<close>

theorem no_delay_after_failure_counterexample:
  "\<not> map_has (hashCache initial) (prefix_of sample_digest (password entry1))
   \<and> trace (process_entry sample_digest failing_net entry1 initial) =
       [Request (request_options ''5BAA6''),
        Response (request_options ''5BAA6'') (NetError ''socket hang up'')]
   \<and> delays (trace (process_entry sample_digest failing_net entry1 initial)) = []"
  by (simp add: run_simps failing_net_def)

theorem delay_after_successful_fetch_witness:
  "\<not> map_has (hashCache initial) (prefix_of sample_digest (password entry1))
   \<and> serving_net (length (requests (trace initial)))
        (request_options (prefix_of sample_digest (password entry1))) = Data sample_body
   \<and> trace (process_entry sample_digest serving_net entry1 initial) =
       [Request (request_options ''5BAA6''),
        Response (request_options ''5BAA6'') (Data sample_body), Delay 100]
   \<and> delays (trace (process_entry sample_digest serving_net entry1 initial)) = [100]
   \<and> delays (trace (process_entry sample_digest serving_net entry2
        (process_entry sample_digest serving_net entry1 initial))) = [100]"
proof -
  let ?s1 = "process_entry sample_digest serving_net entry1 initial"
  have a: "\<not> map_has (hashCache initial) (prefix_of sample_digest (password entry1))"
    by (simp add: initial_def)
  have b: "serving_net (length (requests (trace initial)))
        (request_options (prefix_of sample_digest (password entry1))) = Data sample_body"
    by (simp add: serving_net_def)
  have k: "prefix_of sample_digest (password entry1) = ''5BAA6''"
    by (simp add: entry1_def sample_digest_halves)
  have c: "map_has (hashCache ?s1) (prefix_of sample_digest (password entry2))"
    by (simp add: run_simps serving_net_def prefix_of_def)
  have "trace ?s1 = trace initial @
       [Request (request_options (prefix_of sample_digest (password entry1))),
        Response (request_options (prefix_of sample_digest (password entry1))) (Data sample_body),
        Delay 100]"
    using delay_after_successful_fetch [of sample_digest serving_net entry1 initial,
        THEN conjunct2, THEN conjunct1, rule_format, of sample_body] a b
    by simp
  then have t: "trace ?s1 = [Request (request_options ''5BAA6''),
        Response (request_options ''5BAA6'') (Data sample_body), Delay 100]"
    by (simp add: k initial_def)
  have d2: "trace (process_entry sample_digest serving_net entry2 ?s1) = trace ?s1"
    using delay_after_successful_fetch [of sample_digest serving_net entry2 ?s1,
        THEN conjunct2, THEN conjunct2, rule_format] c
    by simp
  have 4: "delays (trace ?s1) = [100]"
    by (simp add: t)
  have 5: "delays (trace (process_entry sample_digest serving_net entry2 ?s1)) = [100]"
    by (simp add: d2 t)
  from a b t 4 5 show ?thesis by (intro conjI)
qed

theorem cache_size_is_checkedCount_witness:
  "map_size (hashCache (main sample_digest flaky_net [entry1, entry2])) = 1
   \<and> checkedCount (main sample_digest flaky_net [entry1, entry2]) = 1
   \<and> length (requests (trace (main sample_digest flaky_net [entry1, entry2]))) = 2"
proof -
  have c: "checkedCount (main sample_digest flaky_net [entry1, entry2]) = 1"
    by (simp add: run_simps flaky_net_def)
  have r: "length (requests (trace (main sample_digest flaky_net [entry1, entry2]))) = 2"
    by (simp add: run_simps flaky_net_def)
  have "map_size (hashCache (batch sample_digest flaky_net (take 2 [entry1, entry2]) initial)) =
        checkedCount (batch sample_digest flaky_net (take 2 [entry1, entry2]) initial)"
    using cache_size_is_checkedCount [of "[entry1, entry2]" sample_digest flaky_net entry1 initial,
        THEN conjunct1, rule_format, of 2, THEN conjunct1]
    by simp
  then have "map_size (hashCache (main sample_digest flaky_net [entry1, entry2])) =
      checkedCount (main sample_digest flaky_net [entry1, entry2])"
    by (simp add: main_def)
  then have m: "map_size (hashCache (main sample_digest flaky_net [entry1, entry2])) = 1"
    by (simp only: c)
  from m c r show ?thesis by (intro conjI)
qed

text \<open>
  Claim C4 as it is worded fails for a count that is negative without being the failure
  sentinel: the lookup resolves with the count \<open>-5\<close> that the body gives, the record has it,
  and its exported count is blank.
\<close>

theorem negative_count_blank_counterexample:
  "results (main sample_digest negative_net [entry1]) =
     [record_of entry1 (Num (- 5)) (Pwned (Num (- 5)))]
   \<and> Num (- 5) \<noteq> Num (- 1)
   \<and> map (export_row True) (results (main sample_digest negative_net [entry1])) = [''1,,'']
   \<and> map (export_row False) (results (main sample_digest negative_net [entry1])) = [''1,'']"
proof -
  have r: "results (main sample_digest negative_net [entry1]) =
     [record_of entry1 (Num (- 5)) (Pwned (Num (- 5)))]"
    by (simp add: run_simps negative_net_def record_of_def)
  have e: "export_row True (record_of entry1 (Num (- 5)) (Pwned (Num (- 5)))) = ''1,,''"
    "export_row False (record_of entry1 (Num (- 5)) (Pwned (Num (- 5)))) = ''1,''"
    by (simp_all add: export_row_def row_values_def pwned_count_field_def password_field_def
        Let_def escapeCsv_number escapeCsv_empty entry1_def number_string_small
        dec.simps digit_char_def)
  show ?thesis
    by (simp add: r e)
qed

end
